theory Spec2Isabelle
  imports Complex_Main "HOL-Library.Word"
begin

section \<open>Python values shared by the scripts\<close>

text \<open>
  The scripts are Python. Integers are unbounded (\<open>int\<close>, or \<open>nat\<close> where the source
  can only produce a non-negative value), a \<open>bytes\<close> object is a list of 8-bit words, and
  every exception the modelled code can raise is a value of \<open>py_error\<close>, returned as
  \<open>Inl\<close>.
\<close>

type_synonym byte = "8 word"

datatype py_error =
  ValueError | ZeroDivisionError | OverflowError | StructError | TypeError | AttributeError

text \<open>Digits as Python's format specifications \<open>b\<close>, \<open>d\<close> and \<open>X\<close> print them.\<close>

definition digit_char :: "nat \<Rightarrow> char" where
  "digit_char d = ''0123456789ABCDEF'' ! d"

function to_base :: "nat \<Rightarrow> nat \<Rightarrow> string" where
  "to_base b n =
     (if b < 2 \<or> n < b then [digit_char n]
      else to_base b (n div b) @ [digit_char (n mod b)])"
  by pat_completeness auto
termination
  by (relation "measure snd") auto

declare to_base.simps [simp del]

text \<open>\<open>f'{n:0wb}'\<close>, \<open>f'{n:0wX}'\<close>: at least \<open>w\<close> characters, padded with zeros on the left.\<close>

definition zero_pad :: "nat \<Rightarrow> string \<Rightarrow> string" where
  "zero_pad w s = replicate (w - length s) (CHR ''0'') @ s"

definition str_nat :: "nat \<Rightarrow> string" where
  "str_nat n = to_base 10 n"

definition format_03X :: "nat \<Rightarrow> string" where
  "format_03X n = zero_pad 3 (to_base 16 n)"

definition format_02X :: "nat \<Rightarrow> string" where
  "format_02X n = zero_pad 2 (to_base 16 n)"

text \<open>
  \<open>f'{b:08b}'\<close> takes any integer: the sign of a negative one counts in the width.
\<close>

definition format_08b :: "int \<Rightarrow> string" where
  "format_08b b =
     (if b < 0 then CHR ''-'' # zero_pad 7 (to_base 2 (nat (- b)))
      else zero_pad 8 (to_base 2 (nat b)))"

text \<open>A slice \<open>data[a:b]\<close> with constant non-negative bounds.\<close>

definition bytes_slice :: "'a list \<Rightarrow> nat \<Rightarrow> nat \<Rightarrow> 'a list" where
  "bytes_slice data a b = take (b - a) (drop a data)"

text \<open>\<open>struct\<close>'s little-endian unsigned fields (\<open><H\<close>, \<open><I\<close>, \<open><Q\<close>).\<close>

fun le_decode :: "byte list \<Rightarrow> nat" where
  "le_decode [] = 0"
| "le_decode (b # bs) = unat b + 256 * le_decode bs"

section \<open>analysis/bin\_to\_csv.py\<close>

definition HEADER_SIZE :: nat where "HEADER_SIZE = 64"
definition RECORD_SIZE :: nat where "RECORD_SIZE = 24"
definition VERSION :: nat where "VERSION = 1"

text \<open>\<open>MAGIC_PREFIX = b"CANBIN\x00"\<close>\<close>

definition MAGIC_PREFIX :: "byte list" where
  "MAGIC_PREFIX = [0x43, 0x41, 0x4E, 0x42, 0x49, 0x4E, 0x00]"

definition startswith :: "'a list \<Rightarrow> 'a list \<Rightarrow> bool" where
  "startswith s p = (take (length p) s = p)"

record header =
  log_start_unix_us :: nat
  log_start_monotonic_us :: nat
  hdr_flags :: nat

text \<open>
  \<open>HEADER_FMT = "<8sHHQQII28s"\<close>: magic at 0, version at 8, header size at 10, the two
  clocks at 12 and 20, record size at 28, flags at 32, 28 reserved bytes.
\<close>

definition parse_header :: "byte list \<Rightarrow> py_error + header" where
  "parse_header data =
     (if length data < HEADER_SIZE then Inl ValueError
      else
        let d = bytes_slice data 0 HEADER_SIZE;
            magic = bytes_slice d 0 8;
            version = le_decode (bytes_slice d 8 10);
            header_size = le_decode (bytes_slice d 10 12);
            unix_us = le_decode (bytes_slice d 12 20);
            mono_us = le_decode (bytes_slice d 20 28);
            record_size = le_decode (bytes_slice d 28 32);
            flags = le_decode (bytes_slice d 32 36)
        in if \<not> startswith magic MAGIC_PREFIX then Inl ValueError
           else if version \<noteq> VERSION then Inl ValueError
           else if header_size \<noteq> HEADER_SIZE then Inl ValueError
           else if record_size \<noteq> RECORD_SIZE then Inl ValueError
           else Inr \<lparr>log_start_unix_us = unix_us,
                     log_start_monotonic_us = mono_us,
                     hdr_flags = flags\<rparr>)"

text \<open>
  \<open>RECORD_FMT = "<QIBB8sH"\<close>: the timestamp at 0, the CAN id as four bytes at 8, dlc at
  12, flags at 13, the payload at 14, two reserved bytes at 22.
\<close>

record capture_record =
  rec_timestamp_us :: nat
  rec_can_id :: nat
  rec_dlc :: nat
  rec_flags :: nat
  rec_payload :: "byte list"
  rec_reserved :: nat

definition unpack_record :: "byte list \<Rightarrow> py_error + capture_record" where
  "unpack_record rec =
     (if length rec \<noteq> RECORD_SIZE then Inl StructError
      else Inr \<lparr>rec_timestamp_us = le_decode (bytes_slice rec 0 8),
                rec_can_id = le_decode (bytes_slice rec 8 12),
                rec_dlc = le_decode (bytes_slice rec 12 13),
                rec_flags = le_decode (bytes_slice rec 13 14),
                rec_payload = bytes_slice rec 14 22,
                rec_reserved = le_decode (bytes_slice rec 22 24)\<rparr>)"

text \<open>
  \<open>format_datetime\<close>. The call \<open>dt.datetime.fromtimestamp(s).strftime(...)\<close> is library
  code that depends on the local time zone and raises for a date it cannot represent; it
  is the parameter \<open>fmt\<close>. The cache is passed in and returned.
\<close>

type_synonym formatter = "int \<Rightarrow> py_error + string"
type_synonym datetime_cache = "int \<rightharpoonup> string"

definition format_datetime ::
  "formatter \<Rightarrow> int \<Rightarrow> int \<Rightarrow> int \<Rightarrow> datetime_cache \<Rightarrow> py_error + string \<times> datetime_cache"
where
  "format_datetime fmt unix_start mono_start timestamp_us cache =
     (if unix_start = 0 then Inr ('''', cache)
      else
        let unix_us = (if timestamp_us < mono_start then unix_start
                       else unix_start + (timestamp_us - mono_start));
            seconds_int = unix_us div 1000000
        in case cache seconds_int of
             Some cached \<Rightarrow> Inr (cached, cache)
           | None \<Rightarrow>
               (case fmt seconds_int of
                  Inl e \<Rightarrow> Inl e
                | Inr formatted \<Rightarrow> Inr (formatted, cache(seconds_int \<mapsto> formatted))))"

text \<open>\<open>",".join(fields)\<close>\<close>

fun join_comma :: "string list \<Rightarrow> string" where
  "join_comma [] = []"
| "join_comma [s] = s"
| "join_comma (s # t # ss) = s @ '','' @ join_comma (t # ss)"

definition csv_line :: "string \<Rightarrow> capture_record \<Rightarrow> string" where
  "csv_line datetime_str r =
     join_comma ([datetime_str, str_nat (rec_timestamp_us r), format_03X (rec_can_id r),
                  str_nat (rec_dlc r)] @ map (\<lambda>b. format_02X (unat b)) (rec_payload r))
     @ [CHR 0x0A]"

definition CSV_HEADER :: string where
  "CSV_HEADER = ''datetime,timestamp_us,can_id,dlc,b0,b1,b2,b3,b4,b5,b6,b7'' @ [CHR 0x0A]"

text \<open>
  The state of \<open>convert_file\<close>'s loop: the carry-over bytes, the count of records, the
  cache, and the lines written to the output so far.
\<close>

record conv_state =
  leftover :: "byte list"
  records_written :: nat
  cache_of :: datetime_cache
  written :: "string list"

text \<open>The body of \<open>for i in range(record_count)\<close>, for one \<open>i\<close>.\<close>

definition convert_record ::
  "formatter \<Rightarrow> header \<Rightarrow> byte list \<Rightarrow> nat \<Rightarrow> conv_state \<Rightarrow> py_error + conv_state"
where
  "convert_record fmt hdr data i st =
     (let offset = i * RECORD_SIZE;
          rec = bytes_slice data offset (offset + RECORD_SIZE)
      in case unpack_record rec of
           Inl e \<Rightarrow> Inl e
         | Inr r \<Rightarrow>
             (case format_datetime fmt (int (log_start_unix_us hdr))
                     (int (log_start_monotonic_us hdr)) (int (rec_timestamp_us r)) (cache_of st) of
                Inl e \<Rightarrow> Inl e
              | Inr (datetime_str, cache') \<Rightarrow>
                  Inr (st\<lparr>cache_of := cache',
                          written := written st @ [csv_line datetime_str r],
                          records_written := records_written st + 1\<rparr>)))"

fun convert_records ::
  "formatter \<Rightarrow> header \<Rightarrow> byte list \<Rightarrow> nat list \<Rightarrow> conv_state \<Rightarrow> py_error + conv_state"
where
  "convert_records fmt hdr data [] st = Inr st"
| "convert_records fmt hdr data (i # is) st =
     (case convert_record fmt hdr data i st of
        Inl e \<Rightarrow> Inl e
      | Inr st' \<Rightarrow> convert_records fmt hdr data is st')"

text \<open>
  The \<open>while True\<close> loop over the chunks that the successive \<open>src.read\<close> calls return.
  An empty chunk ends the loop, as does the end of the list (a read at end of file
  returns \<open>b""\<close>).
\<close>

fun convert_chunks ::
  "formatter \<Rightarrow> header \<Rightarrow> byte list list \<Rightarrow> conv_state \<Rightarrow> py_error + conv_state"
where
  "convert_chunks fmt hdr [] st = Inr st"
| "convert_chunks fmt hdr (chunk # chunks) st =
     (if chunk = [] then Inr st
      else
        let data = leftover st @ chunk;
            record_count = length data div RECORD_SIZE;
            end_pos = record_count * RECORD_SIZE
        in case convert_records fmt hdr data [0..<record_count]
                  (st\<lparr>leftover := drop end_pos data\<rparr>) of
             Inl e \<Rightarrow> Inl e
           | Inr st' \<Rightarrow> convert_chunks fmt hdr chunks st')"

text \<open>
  What a conversion leaves behind: the lines of the CSV file, the returned count, and
  the byte count of the truncation warning when one is printed.
\<close>

record conv_result =
  csv_lines :: "string list"
  res_records :: nat
  warning :: "nat option"

definition finish :: "conv_state \<Rightarrow> conv_result" where
  "finish st =
     \<lparr>csv_lines = written st,
      res_records = records_written st,
      warning = (if leftover st \<noteq> [] then Some (length (leftover st)) else None)\<rparr>"

definition initial_state :: conv_state where
  "initial_state = \<lparr>leftover = [], records_written = 0, cache_of = Map.empty,
                     written = [CSV_HEADER]\<rparr>"

text \<open>
  The part of \<open>convert_file\<close> after the header: the loop over any sequence of chunks,
  then the warning.
\<close>

definition convert_stream :: "formatter \<Rightarrow> header \<Rightarrow> byte list list \<Rightarrow> py_error + conv_result" where
  "convert_stream fmt hdr chunks =
     (case convert_chunks fmt hdr chunks initial_state of
        Inl e \<Rightarrow> Inl e
      | Inr st \<Rightarrow> Inr (finish st))"

text \<open>
  A regular file answers \<open>read(n)\<close> with the next \<open>n\<close> bytes, or with what is left.
\<close>

function file_reads :: "nat \<Rightarrow> byte list \<Rightarrow> byte list list" where
  "file_reads n bs =
     (if n = 0 \<or> bs = [] then [] else take n bs # file_reads n (drop n bs))"
  by pat_completeness auto
termination
  by (relation "measure (\<lambda>(n, bs). length bs)") auto

declare file_reads.simps [simp del]

definition convert_file :: "formatter \<Rightarrow> byte list \<Rightarrow> py_error + conv_result" where
  "convert_file fmt file =
     (case parse_header (take HEADER_SIZE file) of
        Inl e \<Rightarrow> Inl e
      | Inr hdr \<Rightarrow>
          convert_stream fmt hdr (file_reads (RECORD_SIZE * 1024) (drop HEADER_SIZE file)))"

section \<open>Python strings and slices\<close>

text \<open>
  Text is modelled on ASCII. \<open>is_space\<close> is \<open>str.isspace\<close> there, which is also what
  \<open>str.strip()\<close>, \<open>str.split()\<close> and the pattern \<open>\s\<close> use.
\<close>

definition is_space :: "char \<Rightarrow> bool" where
  "is_space c = (of_char c \<in> {9, 10, 11, 12, 13, 28, 29, 30, 31, 32 :: nat})"

definition py_strip :: "string \<Rightarrow> string" where
  "py_strip s = rev (dropWhile is_space (rev (dropWhile is_space s)))"



text \<open>
  \<open>int(s, base)\<close> and \<open>int(s)\<close> on a string. The white space that \<open>int\<close> skips
  at both ends of an ASCII text is that of C (tab to carriage return, and the space),
  not that of \<open>str.strip\<close>. A sign may come first, then for base 16 and base 2 an
  optional prefix \<open>0x\<close> or \<open>0b\<close> that one underscore may follow, then digits of the
  base with single underscores between them. For a base that is no power of two, a
  text of more than 4300 digits is refused (the interpreter's default limit, which the
  scripts do not change). \<open>None\<close> is the \<open>ValueError\<close>.
\<close>

definition is_c_space :: "char \<Rightarrow> bool" where
  "is_c_space c = (of_char c \<in> {9, 10, 11, 12, 13, 32 :: nat})"

definition int_strip :: "string \<Rightarrow> string" where
  "int_strip s = rev (dropWhile is_c_space (rev (dropWhile is_c_space s)))"

definition MAX_STR_DIGITS :: nat where "MAX_STR_DIGITS = 4300"

definition binary_base :: "nat \<Rightarrow> bool" where
  "binary_base base = (base \<in> {2, 4, 8, 16, 32})"

definition digit_count :: "string \<Rightarrow> nat" where
  "digit_count s = length (filter (\<lambda>c. c \<noteq> CHR ''_'') s)"

definition digit_val :: "char \<Rightarrow> nat option" where
  "digit_val c =
     (let n = (of_char c :: nat) in
      if 48 \<le> n \<and> n \<le> 57 then Some (n - 48)
      else if 97 \<le> n \<and> n \<le> 122 then Some (n - 87)
      else if 65 \<le> n \<and> n \<le> 90 then Some (n - 55)
      else None)"

definition digit_in :: "nat \<Rightarrow> char \<Rightarrow> nat option" where
  "digit_in base c =
     (case digit_val c of None \<Rightarrow> None | Some v \<Rightarrow> if v < base then Some v else None)"

fun parse_digits :: "nat \<Rightarrow> nat \<Rightarrow> string \<Rightarrow> nat option" where
  "parse_digits base acc [] = Some acc"
| "parse_digits base acc [c] =
     (case digit_in base c of None \<Rightarrow> None | Some v \<Rightarrow> Some (acc * base + v))"
| "parse_digits base acc (c # d # ds) =
     (if c = CHR ''_'' then
        (case digit_in base d of
           None \<Rightarrow> None
         | Some v \<Rightarrow> parse_digits base (acc * base + v) ds)
      else
        (case digit_in base c of
           None \<Rightarrow> None
         | Some v \<Rightarrow> parse_digits base (acc * base + v) (d # ds)))"

definition parse_body :: "nat \<Rightarrow> string \<Rightarrow> nat option" where
  "parse_body base s =
     (case s of
        [] \<Rightarrow> None
      | c # cs \<Rightarrow> (case digit_in base c of None \<Rightarrow> None | Some v \<Rightarrow> parse_digits base v cs))"

definition base_prefix :: "nat \<Rightarrow> char list" where
  "base_prefix base =
     (if base = 16 then [CHR ''x'', CHR ''X'']
      else if base = 2 then [CHR ''b'', CHR ''B'']
      else if base = 8 then [CHR ''o'', CHR ''O'']
      else [])"

definition skip_prefix :: "nat \<Rightarrow> string \<Rightarrow> string" where
  "skip_prefix base s =
     (case s of
        z # p # r \<Rightarrow>
          if z = CHR ''0'' \<and> p \<in> set (base_prefix base)
          then (case r of u # r' \<Rightarrow> if u = CHR ''_'' then r' else r | [] \<Rightarrow> r)
          else s
      | _ \<Rightarrow> s)"

definition py_int :: "nat \<Rightarrow> string \<Rightarrow> int option" where
  "py_int base s =
     (let t = int_strip s;
          neg = (t \<noteq> [] \<and> hd t = CHR ''-'');
          u = (if t \<noteq> [] \<and> (hd t = CHR ''-'' \<or> hd t = CHR ''+'') then tl t else t);
          body = skip_prefix base u
      in if \<not> binary_base base \<and> MAX_STR_DIGITS < digit_count body then None
         else case parse_body base body of
                None \<Rightarrow> None
              | Some n \<Rightarrow> Some (if neg then - int n else int n))"

text \<open>
  A slice \<open>xs[a:b]\<close> and a slice \<open>xs[:b]\<close> with integer bounds: a negative bound counts
  from the end, and both are clamped to the list.
\<close>

definition clamp_index :: "nat \<Rightarrow> int \<Rightarrow> nat" where
  "clamp_index n i = (if i < 0 then nat (int n + i) else min n (nat i))"

definition py_slice :: "'a list \<Rightarrow> int \<Rightarrow> int \<Rightarrow> 'a list" where
  "py_slice xs a b =
     (let lo = clamp_index (length xs) a; hi = clamp_index (length xs) b
      in take (hi - lo) (drop lo xs))"


section \<open>scripts/decode\_with\_obdb.py\<close>

subsection \<open>Signal definitions and the registry\<close>

text \<open>
  A signal definition is a dictionary; every key may be absent, and the code reads each
  one with \<open>get\<close> and a default. The type \<open>'f\<close> is that of the numbers \<open>add\<close>,
  \<open>mul\<close> and \<open>div\<close>, which the merge does not look at.
\<close>

record 'f signal_def =
  sd_name :: "string option"
  sd_bix :: "int option"
  sd_len :: "int option"
  sd_add :: "'f option"
  sd_mul :: "'f option"
  sd_div :: "'f option"
  sd_sign :: "bool option"
  sd_unit :: "string option"
  sd_source :: "string option"

text \<open>An entry of \<open>manual_can_ids\<close> or of \<open>obdb_can_ids\<close>.\<close>

record 'f message_def =
  md_name :: "string option"
  md_signals :: "'f signal_def list option"
  md_source :: "string option"

text \<open>
  An entry of \<open>signal_definitions\<close>: the three keys are always there; the name is
  \<open>None\<close> only when \<open>existing.get('name') or defn.get('name')\<close> finds none.
\<close>

record 'f merged_def =
  reg_name :: "string option"
  reg_signals :: "'f signal_def list"
  reg_source :: string

definition get_or :: "'a option \<Rightarrow> 'a \<Rightarrow> 'a" where
  "get_or v d = (case v of None \<Rightarrow> d | Some x \<Rightarrow> x)"

text \<open>The dictionary comprehension over \<open>manual_can_ids.items()\<close>, one item.\<close>

definition merge_manual ::
  "nat \<times> 'f message_def \<Rightarrow> (nat \<rightharpoonup> 'f merged_def) \<Rightarrow> (nat \<rightharpoonup> 'f merged_def)"
where
  "merge_manual item defs =
     (case item of (cid, defn) \<Rightarrow>
        defs(cid \<mapsto> \<lparr>reg_name = Some (get_or (md_name defn) ''Unknown''),
                       reg_signals = get_or (md_signals defn) [],
                       reg_source = get_or (md_source defn) ''built-in''\<rparr>))"

text \<open>The body of the loop over \<open>obdb_can_ids.items()\<close>.\<close>

definition merge_obdb ::
  "nat \<times> 'f message_def \<Rightarrow> (nat \<rightharpoonup> 'f merged_def) \<Rightarrow> (nat \<rightharpoonup> 'f merged_def)"
where
  "merge_obdb item defs =
     (case item of (cid, defn) \<Rightarrow>
        (case defs cid of
           Some existing \<Rightarrow>
             defs(cid \<mapsto>
               \<lparr>reg_name = (if reg_name existing \<noteq> None \<and> reg_name existing \<noteq> Some []
                             then reg_name existing else md_name defn),
                reg_signals = reg_signals existing @ get_or (md_signals defn) [],
                reg_source = reg_source existing @ ''+obdb''\<rparr>)
         | None \<Rightarrow>
             defs(cid \<mapsto> \<lparr>reg_name = Some (get_or (md_name defn) ''Unknown''),
                            reg_signals = get_or (md_signals defn) [],
                            reg_source = get_or (md_source defn) ''obdb''\<rparr>)))"

text \<open>
  The two dictionaries are given by their items, in iteration order; the keys of a
  dictionary are distinct.
\<close>

definition merge_signal_definitions ::
  "(nat \<times> 'f message_def) list \<Rightarrow> (nat \<times> 'f message_def) list \<Rightarrow> (nat \<rightharpoonup> 'f merged_def)"
where
  "merge_signal_definitions manual_can_ids obdb_can_ids =
     fold merge_obdb obdb_can_ids (fold merge_manual manual_can_ids Map.empty)"

subsection \<open>Frames from the three sources\<close>


text \<open>
  \<open>re.search\<close> with the pattern
  \<^verbatim>\<open>ID:\s*0x([0-9A-Fa-f]+)\s+DLC:\s*(\d+)\s+Data:\s*([0-9A-Fa-f\s]+)\<close>:
  the three groups of the leftmost match. Every repetition but the last \<open>\s*\<close> is
  followed by a character outside its class, so the greedy match is the only one; the
  last \<open>\s*\<close> gives back one character when no hexadecimal digit follows it.
\<close>

definition is_digit :: "char \<Rightarrow> bool" where
  "is_digit c = (48 \<le> (of_char c :: nat) \<and> (of_char c :: nat) \<le> 57)"

definition is_hex :: "char \<Rightarrow> bool" where
  "is_hex c =
     (let n = (of_char c :: nat)
      in (48 \<le> n \<and> n \<le> 57) \<or> (65 \<le> n \<and> n \<le> 70) \<or> (97 \<le> n \<and> n \<le> 102))"






text \<open>
  A row of \<open>csv.DictReader\<close>: a column of the header maps to the text of its cell, or
  to \<open>None\<close> in a row that is too short; any other key is absent.
\<close>

datatype cell = Str string | PyNone

type_synonym row = "string \<rightharpoonup> cell"

text \<open>\<open>str(row.get(key, default))\<close>\<close>

definition str_get :: "row \<Rightarrow> string \<Rightarrow> string \<Rightarrow> string" where
  "str_get r key d = (case r key of None \<Rightarrow> d | Some PyNone \<Rightarrow> ''None'' | Some (Str s) \<Rightarrow> s)"

text \<open>\<open>int(row.get(key, 0))\<close>; \<open>None\<close> is the \<open>ValueError\<close> or \<open>TypeError\<close>.\<close>

definition int_get :: "row \<Rightarrow> string \<Rightarrow> int option" where
  "int_get r key = (case r key of None \<Rightarrow> Some 0 | Some PyNone \<Rightarrow> None | Some (Str s) \<Rightarrow> py_int 10 s)"

text \<open>The value of one byte column, from its stripped text.\<close>

definition byte_value :: "string \<Rightarrow> int" where
  "byte_value val =
     (if val = [] then 0
      else case py_int 16 val of
             Some v \<Rightarrow> v
           | None \<Rightarrow> (case py_int 10 val of Some v \<Rightarrow> v | None \<Rightarrow> 0))"

definition byte_key :: "nat \<Rightarrow> string" where
  "byte_key i = ''byte'' @ str_nat i"







subsection \<open>Python floats\<close>

text \<open>
  A Python float is an IEEE 754 binary64 value: a finite number (a rational; \<open>Finite 0\<close>
  is \<open>0.0\<close>), \<open>-0.0\<close>, an infinity or a NaN. \<open>round64\<close> rounds a rational to the
  nearest such value, ties to even: 53 significant bits, \<open>-1074\<close> the least exponent
  (the subnormal values), an infinity from \<open>2^1024\<close> on, and a zero with the sign of the
  number when it rounds to nothing. \<open>bit_length\<close> is \<open>int.bit_length\<close>, and
  \<open>floor_log2 q\<close> the exponent \<open>L\<close> of a positive \<open>q\<close>, with \<open>2^L \<le> q < 2^(L+1)\<close>.
\<close>

datatype f64 = Finite rat | NegZero | PosInf | NegInf | NaN

definition pow2 :: "int \<Rightarrow> rat" where
  "pow2 e = (if 0 \<le> e then 2 ^ nat e else 1 / 2 ^ nat (- e))"

function bit_length :: "int \<Rightarrow> int" where
  "bit_length n = (if n \<le> 0 then 0 else 1 + bit_length (n div 2))"
  by pat_completeness auto
termination
  by (relation "measure nat") auto

declare bit_length.simps [simp del]

definition floor_log2 :: "rat \<Rightarrow> int" where
  "floor_log2 q =
     (if 1 \<le> q then bit_length \<lfloor>q\<rfloor> - 1
      else - bit_length (\<lceil>1 / q\<rceil> - 1))"

definition round_even :: "rat \<Rightarrow> int" where
  "round_even x =
     (let f = \<lfloor>x\<rfloor>; r = x - of_int f
      in if r < 1 / 2 then f else if 1 / 2 < r then f + 1 else if even f then f else f + 1)"

definition round_mag :: "rat \<Rightarrow> rat" where
  "round_mag a =
     (let e = max (floor_log2 a - 52) (- 1074)
      in of_int (round_even (a / pow2 e)) * pow2 e)"

definition round64 :: "rat \<Rightarrow> f64" where
  "round64 q =
     (if q = 0 then Finite 0
      else
        let v = round_mag \<bar>q\<bar>
        in if pow2 1024 \<le> v then (if 0 < q then PosInf else NegInf)
           else if v = 0 then (if 0 < q then Finite 0 else NegZero)
           else Finite (if 0 < q then v else - v))"

text \<open>
  The values of \<open>f64\<close> that stand for a float are those that rounding leaves as they
  are.
\<close>

definition is_f64 :: "f64 \<Rightarrow> bool" where
  "is_f64 x = (case x of Finite q \<Rightarrow> round64 q = Finite q | _ \<Rightarrow> True)"

text \<open>
  The operations \<open>+\<close>, \<open>*\<close> and \<open>/\<close> of two floats: the exact result, rounded, and
  the special values as IEEE 754 has them. Python's \<open>+\<close> and \<open>*\<close> never raise;
  \<open>/\<close> raises \<open>ZeroDivisionError\<close> when the divisor is \<open>0.0\<close> or \<open>-0.0\<close>.
\<close>

fun is_inf :: "f64 \<Rightarrow> bool" where
  "is_inf PosInf = True"
| "is_inf NegInf = True"
| "is_inf _ = False"

definition is_zero :: "f64 \<Rightarrow> bool" where
  "is_zero x = (x = Finite 0 \<or> x = NegZero)"

fun is_neg :: "f64 \<Rightarrow> bool" where
  "is_neg (Finite q) = (q < 0)"
| "is_neg NegZero = True"
| "is_neg NegInf = True"
| "is_neg _ = False"

fun rat_of :: "f64 \<Rightarrow> rat" where
  "rat_of (Finite q) = q"
| "rat_of _ = 0"

definition signed_inf :: "bool \<Rightarrow> f64" where
  "signed_inf neg = (if neg then NegInf else PosInf)"

definition signed_zero :: "bool \<Rightarrow> f64" where
  "signed_zero neg = (if neg then NegZero else Finite 0)"

definition f64_add :: "f64 \<Rightarrow> f64 \<Rightarrow> f64" where
  "f64_add x y =
     (if x = NaN \<or> y = NaN then NaN
      else if is_inf x \<and> is_inf y then (if x = y then x else NaN)
      else if is_inf x then x
      else if is_inf y then y
      else if x = NegZero \<and> y = NegZero then NegZero
      else round64 (rat_of x + rat_of y))"

definition f64_mul :: "f64 \<Rightarrow> f64 \<Rightarrow> f64" where
  "f64_mul x y =
     (if x = NaN \<or> y = NaN then NaN
      else if is_inf x \<or> is_inf y then
        (if is_zero x \<or> is_zero y then NaN else signed_inf (is_neg x \<noteq> is_neg y))
      else if is_zero x \<or> is_zero y then signed_zero (is_neg x \<noteq> is_neg y)
      else round64 (rat_of x * rat_of y))"

definition f64_quot :: "f64 \<Rightarrow> f64 \<Rightarrow> f64" where
  "f64_quot x y =
     (if x = NaN \<or> y = NaN then NaN
      else if is_inf x then (if is_inf y then NaN else signed_inf (is_neg x \<noteq> is_neg y))
      else if is_inf y then signed_zero (is_neg x \<noteq> is_neg y)
      else if is_zero y then (if is_zero x then NaN else signed_inf (is_neg x \<noteq> is_neg y))
      else if is_zero x then signed_zero (is_neg x \<noteq> is_neg y)
      else round64 (rat_of x / rat_of y))"

definition f64_div :: "f64 \<Rightarrow> f64 \<Rightarrow> py_error + f64" where
  "f64_div x y = (if is_zero y then Inl ZeroDivisionError else Inr (f64_quot x y))"

text \<open>
  \<open>float(n)\<close> of an integer is the nearest float, and raises \<open>OverflowError\<close> where
  that is an infinity. A number of a signal definition is an \<open>int\<close> or a \<open>float\<close>;
  \<open>float(x)\<close> of a float is the float itself.
\<close>

definition f64_of_int :: "int \<Rightarrow> py_error + f64" where
  "f64_of_int n =
     (let v = round64 (of_int n) in if is_inf v then Inl OverflowError else Inr v)"

datatype py_num = PyInt int | PyFloat f64

definition to_float :: "py_num \<Rightarrow> py_error + f64" where
  "to_float x = (case x of PyInt n \<Rightarrow> f64_of_int n | PyFloat v \<Rightarrow> Inr v)"

subsection \<open>Bit extraction and the transform\<close>

text \<open>
  \<open>extract_bits\<close>: the payload is printed as a string of binary digits, sliced, and
  read back with \<open>int(value_bits, 2)\<close>, which raises on an empty slice. The shift
  \<open>1 << (length - 1)\<close> raises on a negative count; it is only evaluated for a signed
  definition.
\<close>

definition extract_bits :: "int list \<Rightarrow> int \<Rightarrow> int \<Rightarrow> bool \<Rightarrow> py_error + int option" where
  "extract_bits data_bytes bix blen is_signed =
     (let bit_string = concat (map format_08b data_bytes) in
      if bix + blen > int (length bit_string) then Inr None
      else
        case py_int 2 (py_slice bit_string bix (bix + blen)) of
          None \<Rightarrow> Inl ValueError
        | Some v \<Rightarrow>
            if is_signed then
              (if blen - 1 < 0 then Inl ValueError
               else if v \<ge> 2 ^ nat (blen - 1) then Inr (Some (v - 2 ^ nat blen))
               else Inr (Some v))
            else Inr (Some v))"

text \<open>
  \<open>decode_signal\<close>: \<open>float(raw)\<close>, then the three steps in the order of the source,
  each one only when its parameter is not \<open>None\<close>, each with its own \<open>float(...)\<close>.
  The numbers of the definition are those of \<open>py_num\<close>.
\<close>

record decoded_signal =
  ds_raw :: int
  ds_value :: f64
  ds_unit :: string
  ds_name :: string

definition decode_signal ::
  "int list \<Rightarrow> py_num signal_def \<Rightarrow> py_error + decoded_signal option"
where
  "decode_signal data_bytes signal_def =
     (let bix = get_or (sd_bix signal_def) 0;
          blen = get_or (sd_len signal_def) 8;
          is_signed = get_or (sd_sign signal_def) False
      in case extract_bits data_bytes bix blen is_signed of
           Inl e \<Rightarrow> Inl e
         | Inr None \<Rightarrow> Inr None
         | Inr (Some raw) \<Rightarrow>
             (case f64_of_int raw of
                Inl e \<Rightarrow> Inl e
              | Inr v0 \<Rightarrow>
                  (case (case sd_add signal_def of
                           None \<Rightarrow> Inr v0
                         | Some a \<Rightarrow>
                             (case to_float a of
                                Inl e \<Rightarrow> Inl e
                              | Inr fa \<Rightarrow> Inr (f64_add v0 fa))) of
                     Inl e \<Rightarrow> Inl e
                   | Inr v1 \<Rightarrow>
                       (case (case sd_mul signal_def of
                                None \<Rightarrow> Inr v1
                              | Some m \<Rightarrow>
                                  (case to_float m of
                                     Inl e \<Rightarrow> Inl e
                                   | Inr fm \<Rightarrow> Inr (f64_mul v1 fm))) of
                          Inl e \<Rightarrow> Inl e
                        | Inr v2 \<Rightarrow>
                            (case (case sd_div signal_def of
                                     None \<Rightarrow> Inr v2
                                   | Some d \<Rightarrow>
                                       (case to_float d of
                                          Inl e \<Rightarrow> Inl e
                                        | Inr fd \<Rightarrow> f64_div v2 fd)) of
                               Inl e \<Rightarrow> Inl e
                             | Inr v3 \<Rightarrow>
                                 Inr (Some \<lparr>ds_raw = raw, ds_value = v3,
                                            ds_unit = get_or (sd_unit signal_def) ''unknown'',
                                            ds_name = get_or (sd_name signal_def) ''Unknown''\<rparr>))))))"

text \<open>
  \<open>decode_message\<close>: the loop appends each result that is not \<open>None\<close>; an exception
  of \<open>decode_signal\<close> leaves the loop and the function.
\<close>

record decoded_message =
  dm_name :: "string option"
  dm_signals :: "decoded_signal list"

fun decode_loop ::
  "int list \<Rightarrow> py_num signal_def list \<Rightarrow> decoded_signal list \<Rightarrow> py_error + decoded_signal list"
where
  "decode_loop data_bytes [] decoded = Inr decoded"
| "decode_loop data_bytes (signal_def # defs) decoded =
     (case decode_signal data_bytes signal_def of
        Inl e \<Rightarrow> Inl e
      | Inr None \<Rightarrow> decode_loop data_bytes defs decoded
      | Inr (Some result) \<Rightarrow> decode_loop data_bytes defs (decoded @ [result]))"

definition decode_message ::
  "(nat \<rightharpoonup> py_num merged_def) \<Rightarrow> nat \<Rightarrow> int list \<Rightarrow> py_error + decoded_message option"
where
  "decode_message signal_definitions can_id data_bytes =
     (case signal_definitions can_id of
        None \<Rightarrow> Inr None
      | Some can_def \<Rightarrow>
          (case decode_loop data_bytes (reg_signals can_def) [] of
             Inl e \<Rightarrow> Inl e
           | Inr sigs \<Rightarrow> Inr (Some \<lparr>dm_name = reg_name can_def, dm_signals = sigs\<rparr>)))"

section \<open>scripts/convert\_csv\_to\_bin.py\<close>

text \<open>
  \<open>RECORD_STRUCT = struct.Struct("<QHB8B")\<close>. \<open>pack\<close> raises \<open>struct.error\<close> on a
  value outside the range of its field.
\<close>

fun le_encode :: "nat \<Rightarrow> nat \<Rightarrow> byte list" where
  "le_encode 0 v = []"
| "le_encode (Suc n) v = word_of_nat (v mod 256) # le_encode n (v div 256)"

definition in_field :: "nat \<Rightarrow> int \<Rightarrow> bool" where
  "in_field n v = (0 \<le> v \<and> v < 2 ^ (8 * n))"

definition pack_record :: "int \<Rightarrow> int \<Rightarrow> int \<Rightarrow> int list \<Rightarrow> py_error + byte list" where
  "pack_record timestamp can_id dlc data_bytes =
     (if length data_bytes = 8 \<and> in_field 8 timestamp \<and> in_field 2 can_id \<and> in_field 1 dlc
         \<and> list_all (in_field 1) data_bytes
      then Inr (le_encode 8 (nat timestamp) @ le_encode 2 (nat can_id) @ le_encode 1 (nat dlc)
                @ concat (map (\<lambda>b. le_encode 1 (nat b)) data_bytes))
      else Inl StructError)"

text \<open>
  One row of the loop of \<open>convert\<close>: \<open>Inr None\<close> is the \<open>continue\<close> of the
  \<open>except\<close> clause, \<open>Inr (Some packed)\<close> the bytes written for the row.
\<close>

definition convert_row :: "row \<Rightarrow> py_error + byte list option" where
  "convert_row r =
     (case int_get r ''timestamp_us'' of None \<Rightarrow> Inr None | Some timestamp \<Rightarrow>
      case py_int 16 (str_get r ''can_id'' ''0'') of None \<Rightarrow> Inr None | Some can_id \<Rightarrow>
      case int_get r ''dlc'' of None \<Rightarrow> Inr None | Some dlc \<Rightarrow>
      let data_bytes = map (\<lambda>i. byte_value (py_strip (str_get r (byte_key i) []))) [0..<8]
      in case pack_record timestamp can_id dlc (take 8 data_bytes) of
           Inl e \<Rightarrow> Inl e
         | Inr packed \<Rightarrow> Inr (Some packed))"


section \<open>The specification's formats and examples\<close>

text \<open>
  The specification gives each binary field by its position: \<open>le_field data off n\<close> is
  the unsigned little-endian integer held in the \<open>n\<close> bytes from offset \<open>off\<close>.
\<close>

definition le_field :: "byte list \<Rightarrow> nat \<Rightarrow> nat \<Rightarrow> nat" where
  "le_field data off n = (\<Sum>i<n. unat (data ! (off + i)) * 256 ^ i)"


definition example_record :: "byte list" where
  "example_record =
     [0x84, 0xA1, 0x07, 0x00, 0x00, 0x00, 0x00, 0x00, 0xD0, 0x01, 0x00, 0x00,
      0x02, 0x00, 0x12, 0x34, 0x00, 0x00, 0x00, 0x00, 0x00, 0x00, 0x00, 0x00]"

text \<open>
  The memo of \<open>format_datetime\<close> starts empty in \<open>convert_file\<close> and is filled by
  \<open>format_datetime\<close> alone: every entry is the text that \<open>fmt\<close> gives for its key.
\<close>

definition cache_ok :: "formatter \<Rightarrow> datetime_cache \<Rightarrow> bool" where
  "cache_ok fmt cache = (\<forall>s v. cache s = Some v \<longrightarrow> fmt s = Inr v)"

text \<open>
  An instance of the formatter for closed examples. It keeps of the library call what
  the examples need: a second count that falls after the year 9999 in every time zone
  is refused with \<open>ValueError\<close>, as \<open>datetime.fromtimestamp\<close> does; the text of the
  other dates, which depends on the time zone, is stood for by the decimal count.
\<close>

definition example_fmt :: formatter where
  "example_fmt s = (if s < 0 \<or> 253402387199 < s then Inl ValueError else Inr (str_nat (nat s)))"

text \<open>
  The record stream of the specification: the bytes that the reads return up to the end
  of the file, whatever the chunks; its records are the consecutive 24-byte slices; the
  line of a record is made of its fields and of its wall-clock time.
\<close>

definition stream_of :: "byte list list \<Rightarrow> byte list" where
  "stream_of chunks = concat (takeWhile (\<lambda>c. c \<noteq> []) chunks)"

definition spec_records :: "byte list \<Rightarrow> byte list list" where
  "spec_records stream =
     map (\<lambda>i. bytes_slice stream (i * 24) (i * 24 + 24)) [0..<length stream div 24]"

definition datetime_of :: "formatter \<Rightarrow> header \<Rightarrow> nat \<Rightarrow> py_error + string" where
  "datetime_of fmt hdr timestamp_us =
     (let u = int (log_start_unix_us hdr); m = int (log_start_monotonic_us hdr);
          t = int timestamp_us
      in if u = 0 then Inr []
         else if t < m then fmt (u div 1000000)
         else fmt ((u + (t - m)) div 1000000))"

definition spec_line :: "formatter \<Rightarrow> header \<Rightarrow> byte list \<Rightarrow> py_error + string" where
  "spec_line fmt hdr rec =
     (case unpack_record rec of
        Inl e \<Rightarrow> Inl e
      | Inr r \<Rightarrow>
          (case datetime_of fmt hdr (rec_timestamp_us r) of
             Inl e \<Rightarrow> Inl e
           | Inr d \<Rightarrow> Inr (csv_line d r)))"

text \<open>
  Three copies of the scenario's record and 10 more bytes, as two reads of 30 and 52
  bytes return them; and a record whose device clock is the largest 64-bit value.
\<close>

definition example_hdr :: header where
  "example_hdr = \<lparr>log_start_unix_us = 1700000000000000, log_start_monotonic_us = 500000,
                    hdr_flags = 0\<rparr>"

definition example_chunks :: "byte list list" where
  "example_chunks =
     [example_record @ take 6 example_record,
      drop 6 example_record @ example_record @ replicate 10 0xFF]"

definition far_record :: "byte list" where
  "far_record =
     [0xFF, 0xFF, 0xFF, 0xFF, 0xFF, 0xFF, 0xFF, 0xFF, 0xD0, 0x01, 0x00, 0x00,
      0x02, 0x00, 0x12, 0x34, 0x00, 0x00, 0x00, 0x00, 0x00, 0x00, 0x00, 0x00]"

text \<open>
  The specification's bit-field: the payload bytes concatenated most significant first
  make one unsigned integer of \<open>8 * length payload\<close> bits; the slice \<open>[off, off + len)\<close>,
  counted from the most significant bit, is that integer shifted right by the bits after
  the slice and cut to \<open>len\<close> bits.
\<close>

definition be_value :: "int list \<Rightarrow> int" where
  "be_value payload = foldl (\<lambda>acc b. acc * 256 + b) 0 payload"

definition bit_slice :: "int list \<Rightarrow> nat \<Rightarrow> nat \<Rightarrow> int" where
  "bit_slice payload off len =
     (be_value payload div 2 ^ (8 * length payload - (off + len))) mod 2 ^ len"

text \<open>The number that a string of the digits 0 and 1 denotes.\<close>

fun bits_val :: "string \<Rightarrow> nat" where
  "bits_val [] = 0"
| "bits_val (c # cs) = (if c = CHR ''1'' then 2 ^ length cs else 0) + bits_val cs"

definition binary :: "string \<Rightarrow> bool" where
  "binary s = list_all (\<lambda>c. c = CHR ''0'' \<or> c = CHR ''1'') s"

text \<open>
  The specification's decoded signal. A definition fits a payload when its bit range
  lies within the payload; its raw value is the bit slice, reinterpreted in two's
  complement for a signed definition.
\<close>

definition fits :: "int list \<Rightarrow> 'f signal_def \<Rightarrow> bool" where
  "fits payload d = (get_or (sd_bix d) 0 + get_or (sd_len d) 8 \<le> 8 * int (length payload))"

definition spec_raw :: "int list \<Rightarrow> 'f signal_def \<Rightarrow> int" where
  "spec_raw payload d =
     (let l = nat (get_or (sd_len d) 8);
          u = bit_slice payload (nat (get_or (sd_bix d) 0)) l
      in if get_or (sd_sign d) False \<and> u \<ge> 2 ^ (l - 1) then u - 2 ^ l else u)"

text \<open>
  The specification's transform, \<open>((raw + add) * mul) / div\<close>, on floats: the float of
  each number, 0, 1 and 1 for the parameters that are unset, and the three operations of
  binary64 in that order.
\<close>

definition spec_float :: "py_num \<Rightarrow> f64" where
  "spec_float x = (case x of PyInt n \<Rightarrow> round64 (of_int n) | PyFloat v \<Rightarrow> v)"

definition spec_value :: "int \<Rightarrow> py_num signal_def \<Rightarrow> f64" where
  "spec_value raw d =
     f64_quot
       (f64_mul
          (f64_add (spec_float (PyInt raw)) (spec_float (get_or (sd_add d) (PyInt 0))))
          (spec_float (get_or (sd_mul d) (PyInt 1))))
       (spec_float (get_or (sd_div d) (PyInt 1)))"

definition spec_decoded :: "int list \<Rightarrow> py_num signal_def \<Rightarrow> decoded_signal" where
  "spec_decoded payload d =
     \<lparr>ds_raw = spec_raw payload d,
      ds_value = spec_value (spec_raw payload d) d,
      ds_unit = get_or (sd_unit d) ''unknown'',
      ds_name = get_or (sd_name d) ''Unknown''\<rparr>"

text \<open>
  A definition as the data model has it (\<open>bit_offset\<close> from 0, \<open>bit_length\<close> from 1)
  whose raw value and numbers have a float: a \<open>bit_length\<close> of at most 1023 bits, every
  number that is set within the range of \<open>float(...)\<close>, and a divisor that, when set,
  is not zero.
\<close>

definition float_ok :: "py_num option \<Rightarrow> bool" where
  "float_ok p =
     (case p of
        None \<Rightarrow> True
      | Some x \<Rightarrow> (case to_float x of Inl e \<Rightarrow> False | Inr v \<Rightarrow> True))"

definition well_formed :: "py_num signal_def \<Rightarrow> bool" where
  "well_formed d =
     (0 \<le> get_or (sd_bix d) 0 \<and> 1 \<le> get_or (sd_len d) 8 \<and> get_or (sd_len d) 8 \<le> 1023
      \<and> float_ok (sd_add d) \<and> float_ok (sd_mul d) \<and> float_ok (sd_div d)
      \<and> (case sd_div d of None \<Rightarrow> True | Some x \<Rightarrow> \<not> is_zero (spec_float x)))"

text \<open>
  Definitions for the examples: the built-in \<open>Coolant Temp\<close> of id 0x2C1, the built-in
  \<open>FR Temp\<close> of id 0x4A7 (bits 8 to 15), a definition that divides by zero, one with
  the three parameters set, the built-in \<open>Steering Angle\<close> of id 0x1AA (signed, divided
  by 10), and one of 1024 bits.
\<close>

definition coolant_temp :: "py_num signal_def" where
  "coolant_temp =
     \<lparr>sd_name = Some ''Coolant Temp'', sd_bix = Some 0, sd_len = Some 8,
      sd_add = Some (PyInt (- 40)), sd_mul = None, sd_div = None, sd_sign = None,
      sd_unit = Some ''celsius'', sd_source = None\<rparr>"

definition fr_temp :: "py_num signal_def" where
  "fr_temp =
     \<lparr>sd_name = Some ''FR Temp'', sd_bix = Some 8, sd_len = Some 8,
      sd_add = Some (PyInt (- 40)), sd_mul = None, sd_div = None, sd_sign = None,
      sd_unit = Some ''celsius'', sd_source = None\<rparr>"

definition zero_div :: "py_num signal_def" where
  "zero_div =
     \<lparr>sd_name = Some ''Scaled'', sd_bix = Some 0, sd_len = Some 8, sd_add = None,
      sd_mul = None, sd_div = Some (PyInt 0), sd_sign = None, sd_unit = Some ''raw'',
      sd_source = Some ''obdb''\<rparr>"

definition scaled_temp :: "py_num signal_def" where
  "scaled_temp =
     \<lparr>sd_name = Some ''Scaled Temp'', sd_bix = Some 8, sd_len = Some 8,
      sd_add = Some (PyInt (- 40)), sd_mul = Some (PyFloat (Finite (3 / 2))),
      sd_div = Some (PyInt 4), sd_sign = None, sd_unit = Some ''celsius'',
      sd_source = None\<rparr>"

definition steering_angle :: "py_num signal_def" where
  "steering_angle =
     \<lparr>sd_name = Some ''Steering Angle'', sd_bix = Some 0, sd_len = Some 16, sd_add = None,
      sd_mul = None, sd_div = Some (PyInt 10), sd_sign = Some True,
      sd_unit = Some ''degrees'', sd_source = None\<rparr>"

definition wide_signal :: "py_num signal_def" where
  "wide_signal =
     \<lparr>sd_name = Some ''Wide'', sd_bix = Some 0, sd_len = Some 1024, sd_add = None,
      sd_mul = None, sd_div = None, sd_sign = None, sd_unit = None, sd_source = None\<rparr>"

definition fl_temp :: "py_num signal_def" where
  "fl_temp = coolant_temp\<lparr>sd_name := Some ''FL Temp''\<rparr>"

definition rl_temp :: "py_num signal_def" where
  "rl_temp = fr_temp\<lparr>sd_name := Some ''RL Temp'', sd_bix := Some 16\<rparr>"

text \<open>
  A registry for the examples: three of the four signals of id 0x4A7, and an id 0x2C1
  whose second definition divides by zero.
\<close>

definition example_registry :: "nat \<rightharpoonup> py_num merged_def" where
  "example_registry =
     [0x4A7 \<mapsto> \<lparr>reg_name = Some ''TPMS Temperature'',
                  reg_signals = [fl_temp, rl_temp, fr_temp], reg_source = ''built-in''\<rparr>,
      0x2C1 \<mapsto> \<lparr>reg_name = Some ''Engine Data'',
                  reg_signals = [coolant_temp, zero_div], reg_source = ''built-in+obdb''\<rparr>]"

text \<open>
  The two tiers of the specification's merge example: a built-in id with two signals, the
  same id from the external source with one signal, and an id that only the external
  source has.
\<close>

definition manual_example :: "(nat \<times> py_num message_def) list" where
  "manual_example =
     [(0x4A7, \<lparr>md_name = Some ''TPMS Temperature'', md_signals = Some [fl_temp, fr_temp],
               md_source = Some ''built-in''\<rparr>)]"

definition obdb_example :: "(nat \<times> py_num message_def) list" where
  "obdb_example =
     [(0x4A7, \<lparr>md_name = Some ''OBDb Signal'', md_signals = Some [zero_div],
               md_source = Some ''obdb''\<rparr>),
      (0x7E8, \<lparr>md_name = Some ''OBDb Signal'', md_signals = Some [zero_div],
               md_source = Some ''obdb''\<rparr>)]"



text \<open>
  Rows for the examples: one whose first byte column is no number, and the same row with
  a timestamp that is no number.
\<close>

definition good_row :: row where
  "good_row =
     [''timestamp_us'' \<mapsto> Str ''500100'', ''can_id'' \<mapsto> Str ''1D0'', ''dlc'' \<mapsto> Str ''2'',
      ''byte0'' \<mapsto> Str ''zz'', ''byte1'' \<mapsto> Str ''34'']"

definition bad_row :: row where
  "bad_row = good_row(''timestamp_us'' \<mapsto> Str ''abc'')"

text \<open>
  Frames for the examples: a log line and a CSV row that declare more than 8 bytes, a
  log line whose dlc has 4301 digits, a CSV row that declares \<open>-1\<close>, and a compact
  record whose dlc byte is 200.
\<close>

definition example_line :: string where
  "example_line = ''[1234] ID: 0x2C1 DLC: 9 Data: A2 01 02 03 04 05 06 07 08''"





section \<open>Properties of the embedded code\<close>

subsection \<open>The header of a capture file\<close>

lemma le_decode_sum: "le_decode xs = (\<Sum>i<length xs. unat (xs ! i) * 256 ^ i)"
proof (induction xs)
  case Nil
  show ?case by simp
next
  case (Cons b bs)
  have "(\<Sum>i<length (b # bs). unat ((b # bs) ! i) * 256 ^ i)
        = unat b + (\<Sum>i<length bs. unat (bs ! i) * 256 ^ Suc i)"
    by (simp add: sum.lessThan_Suc_shift del: sum.lessThan_Suc)
  also have "\<dots> = unat b + 256 * (\<Sum>i<length bs. unat (bs ! i) * 256 ^ i)"
    by (simp add: sum_distrib_left mult.assoc mult.left_commute)
  finally show ?case using Cons.IH by simp
qed

lemma le_decode_slice:
  assumes "b \<le> length data" and "a \<le> b"
  shows "le_decode (bytes_slice data a b) = le_field data a (b - a)"
proof -
  have len: "length (bytes_slice data a b) = b - a"
    using assms by (simp add: bytes_slice_def)
  have "\<And>i. i < b - a \<Longrightarrow> bytes_slice data a b ! i = data ! (a + i)"
    using assms by (simp add: bytes_slice_def)
  then show ?thesis
    by (simp add: le_decode_sum len le_field_def)
qed




text \<open>The scenario's header is accepted; cut short, or with version 2, it is rejected.\<close>

lemmas le_field_eval = le_field_def lessThan_nat_numeral lessThan_Suc


subsection \<open>The layout of a capture record\<close>

lemma slice_as_map:
  "b \<le> length data \<Longrightarrow> a \<le> b \<Longrightarrow> bytes_slice data a b = map (\<lambda>i. data ! (a + i)) [0..<b - a]"
  by (auto simp: bytes_slice_def intro: nth_equalityI)

text \<open>
  C6, as the code has it. A record has 24 bytes: the timestamp in 8 bytes, the CAN id in
  4 bytes at offset 8, dlc at offset 12, flags at offset 13, the payload at offsets 14 to
  21, and 2 reserved bytes; integers are little-endian.
\<close>

theorem unpack_record_layout:
  assumes "length rec = 24"
  shows "unpack_record rec =
           Inr \<lparr>rec_timestamp_us = le_field rec 0 8,
                rec_can_id = le_field rec 8 4,
                rec_dlc = unat (rec ! 12),
                rec_flags = unat (rec ! 13),
                rec_payload = map (\<lambda>i. rec ! (14 + i)) [0..<8],
                rec_reserved = le_field rec 22 2\<rparr>"
proof -
  have one: "\<And>k. le_field rec k (Suc 0) = unat (rec ! k)"
    by (simp add: le_field_def)
  have payload: "bytes_slice rec 14 22 = map (\<lambda>i. rec ! (14 + i)) [0..<8]"
    using assms slice_as_map [of 22 rec 14] by simp
  show ?thesis
    using assms
    by (simp add: unpack_record_def RECORD_SIZE_def le_decode_slice one payload)
qed

theorem unpack_record_layout_witness:
  "unpack_record example_record =
     Inr \<lparr>rec_timestamp_us = 500100, rec_can_id = 0x1D0, rec_dlc = 2, rec_flags = 0,
          rec_payload = [0x12, 0x34, 0, 0, 0, 0, 0, 0], rec_reserved = 0\<rparr>"
proof -
  have len: "length example_record = 24" by (simp add: example_record_def)
  have f: "le_field example_record 0 8 = 500100" "le_field example_record 8 4 = 0x1D0"
    "le_field example_record 22 2 = 0"
    by (simp_all add: le_field_eval example_record_def)
  have p: "map (\<lambda>i. example_record ! (14 + i)) [0..<8] = [0x12, 0x34, 0, 0, 0, 0, 0, 0]"
    by (simp add: example_record_def upt_rec [of 0] upt_rec [of "Suc _"] del: upt_Suc)
  show ?thesis
    using unpack_record_layout [OF len] by (simp add: f p) (simp add: example_record_def)
qed

text \<open>
  C6 as stated fails on the scenario's record: the byte after a 16-bit id, at offset 10,
  is 0, and the decoder reads dlc = 2 from offset 12.
\<close>

theorem record_layout_counterexample:
  "map_sum id rec_dlc (unpack_record example_record) = Inr 2
   \<and> unat (example_record ! 10) = 0"
  by (simp add: unpack_record_def RECORD_SIZE_def example_record_def bytes_slice_def)

subsection \<open>Wall-clock time of a record\<close>

lemma cache_ok_empty: "cache_ok fmt Map.empty"
  by (simp add: cache_ok_def)

lemma format_datetime_cache_ok:
  assumes "cache_ok fmt cache" and "format_datetime fmt u m t cache = Inr (d, cache')"
  shows "cache_ok fmt cache'"
  using assms
  by (auto simp: format_datetime_def cache_ok_def Let_def
      split: if_splits option.splits sum.splits)

lemma format_datetime_value:
  assumes "cache_ok fmt cache"
  shows "map_sum id fst (format_datetime fmt u m t cache) =
           (if u = 0 then Inr []
            else if t < m then fmt (u div 1000000)
            else fmt ((u + (t - m)) div 1000000))"
  using assms
  by (auto simp: format_datetime_def cache_ok_def Let_def split: option.splits sum.splits)

text \<open>
  C8. With a memo that holds only what the formatter gave: the result is the empty string
  when \<open>log_start_unix_us\<close> is 0; otherwise it is what the formatter makes of the whole
  seconds of \<open>log_start_unix_us\<close> when the timestamp is before the monotonic start, and of
  \<open>log_start_unix_us + (timestamp_us - log_start_monotonic_us)\<close> when it is not.
\<close>

theorem format_datetime_resolves:
  assumes "cache_ok fmt cache"
  shows "map_sum id fst (format_datetime fmt unix_start mono_start timestamp_us cache) =
           (if unix_start = 0 then Inr []
            else if timestamp_us < mono_start then fmt (unix_start div 1000000)
            else fmt ((unix_start + (timestamp_us - mono_start)) div 1000000))"
  using assms by (rule format_datetime_value)

theorem format_datetime_resolves_witness:
  "map_sum id fst (format_datetime example_fmt 1700000000000000 500000 500100 Map.empty)
     = Inr ''1700000000''
   \<and> map_sum id fst (format_datetime example_fmt 1700000000000000 500000 499999 Map.empty)
     = Inr ''1700000000''
   \<and> map_sum id fst (format_datetime example_fmt 0 500000 500100 Map.empty) = Inr []"
proof -
  have s: "example_fmt 1700000000 = Inr ''1700000000''"
    by (simp add: example_fmt_def str_nat_def digit_char_def to_base.simps)
  show ?thesis
    using format_datetime_resolves [OF cache_ok_empty, of example_fmt 1700000000000000 500000 500100]
      format_datetime_resolves [OF cache_ok_empty, of example_fmt 1700000000000000 500000 499999]
      format_datetime_resolves [OF cache_ok_empty, of example_fmt 0 500000 500100]
    by (simp add: s)
qed

subsection \<open>The chunked loop of \<open>convert_file\<close>\<close>

lemma convert_record_ok:
  assumes ok: "cache_ok fmt (cache_of st)"
    and line: "spec_line fmt hdr (bytes_slice data (i * 24) (i * 24 + 24)) = Inr l"
  shows "\<exists>c'. convert_record fmt hdr data i st =
                 Inr (st\<lparr>cache_of := c', written := written st @ [l],
                         records_written := records_written st + 1\<rparr>)
              \<and> cache_ok fmt c'"
proof -
  let ?rec = "bytes_slice data (i * 24) (i * 24 + 24)"
  from line obtain r d where r: "unpack_record ?rec = Inr r"
    and d: "datetime_of fmt hdr (rec_timestamp_us r) = Inr d"
    and l: "l = csv_line d r"
    by (auto simp: spec_line_def split: sum.splits)
  let ?call = "format_datetime fmt (int (log_start_unix_us hdr))
                 (int (log_start_monotonic_us hdr)) (int (rec_timestamp_us r)) (cache_of st)"
  have "map_sum id fst ?call = Inr d"
    using format_datetime_value [OF ok, of "int (log_start_unix_us hdr)"
        "int (log_start_monotonic_us hdr)" "int (rec_timestamp_us r)"] d
    by (simp add: datetime_of_def Let_def)
  then obtain c' where call: "?call = Inr (d, c')"
    by (cases ?call) auto
  have "cache_ok fmt c'"
    using format_datetime_cache_ok [OF ok call] .
  moreover have "convert_record fmt hdr data i st =
                 Inr (st\<lparr>cache_of := c', written := written st @ [l],
                         records_written := records_written st + 1\<rparr>)"
    by (simp add: convert_record_def Let_def RECORD_SIZE_def r call l)
  ultimately show ?thesis by blast
qed

lemma convert_records_ok:
  assumes "cache_ok fmt (cache_of st)"
    and "\<forall>i\<in>set is. \<exists>l. spec_line fmt hdr (bytes_slice data (i * 24) (i * 24 + 24)) = Inr l"
  shows "\<exists>st'. convert_records fmt hdr data is st = Inr st'
           \<and> leftover st' = leftover st
           \<and> records_written st' = records_written st + length is
           \<and> written st' = written st
                @ map (\<lambda>i. projr (spec_line fmt hdr (bytes_slice data (i * 24) (i * 24 + 24)))) is
           \<and> cache_ok fmt (cache_of st')"
  using assms
proof (induction "is" arbitrary: st)
  case Nil
  then show ?case by simp
next
  case (Cons i "is")
  from Cons.prems(2) obtain l
    where l: "spec_line fmt hdr (bytes_slice data (i * 24) (i * 24 + 24)) = Inr l"
    by auto
  from convert_record_ok [OF Cons.prems(1) l] obtain c'
    where step: "convert_record fmt hdr data i st =
                   Inr (st\<lparr>cache_of := c', written := written st @ [l],
                           records_written := records_written st + 1\<rparr>)"
      and c': "cache_ok fmt c'"
    by blast
  let ?st1 = "st\<lparr>cache_of := c', written := written st @ [l],
                 records_written := records_written st + 1\<rparr>"
  have "cache_ok fmt (cache_of ?st1)" using c' by simp
  moreover have "\<forall>i\<in>set is. \<exists>l. spec_line fmt hdr (bytes_slice data (i * 24) (i * 24 + 24)) = Inr l"
    using Cons.prems(2) by simp
  ultimately obtain st' where rest: "convert_records fmt hdr data is ?st1 = Inr st'"
    "leftover st' = leftover ?st1"
    "records_written st' = records_written ?st1 + length is"
    "written st' = written ?st1
       @ map (\<lambda>i. projr (spec_line fmt hdr (bytes_slice data (i * 24) (i * 24 + 24)))) is"
    "cache_ok fmt (cache_of st')"
    using Cons.IH [of ?st1] by blast
  show ?case
    using rest by (simp add: step l)
qed

lemma slice_append_left:
  "b \<le> length xs \<Longrightarrow> bytes_slice (xs @ ys) a b = bytes_slice xs a b"
  by (simp add: bytes_slice_def)

lemma slice_drop:
  "bytes_slice (drop n xs) a b = bytes_slice xs (a + n) (b + n)"
  by (simp add: bytes_slice_def add.commute)

lemma spec_records_append:
  "spec_records (S @ c) =
     spec_records S
     @ map (\<lambda>i. bytes_slice (S @ c) (i * 24) (i * 24 + 24))
         [length S div 24..<length (S @ c) div 24]"
proof -
  let ?k = "length S div 24" and ?k' = "length (S @ c) div 24"
  have le: "?k \<le> ?k'" by (simp add: div_le_mono)
  have "[0..<?k'] = [0..<?k] @ [?k..<?k']"
    using le by (metis le_add_diff_inverse upt_add_eq_append zero_le)
  moreover have "map (\<lambda>i. bytes_slice (S @ c) (i * 24) (i * 24 + 24)) [0..<?k]
               = map (\<lambda>i. bytes_slice S (i * 24) (i * 24 + 24)) [0..<?k]"
  proof (rule map_cong [OF refl])
    fix i assume "i \<in> set [0..<?k]"
    then have "i * 24 + 24 \<le> length S" by simp
    then show "bytes_slice (S @ c) (i * 24) (i * 24 + 24) = bytes_slice S (i * 24) (i * 24 + 24)"
      by (rule slice_append_left)
  qed
  ultimately show ?thesis
    by (simp add: spec_records_def del: length_append)
qed


lemma data_slice_shift:
  assumes "k * 24 \<le> length S'"
  shows "bytes_slice (drop (k * 24) S') (i * 24) (i * 24 + 24)
         = bytes_slice S' ((k + i) * 24) ((k + i) * 24 + 24)"
  by (simp add: slice_drop algebra_simps)

lemma upt_shift_map: "k \<le> k' \<Longrightarrow> map f [k..<k'] = map (\<lambda>i. f (k + i)) [0..<k' - k]"
proof -
  assume "k \<le> k'"
  then have "[k..<k'] = map (\<lambda>i. k + i) [0..<k' - k]"
    by (simp add: map_add_upt add.commute)
  then show ?thesis by (simp add: comp_def)
qed

lemma convert_chunks_ok:
  assumes "leftover st = drop (length S div 24 * 24) S"
    and "records_written st = length S div 24"
    and "written st = CSV_HEADER # map (\<lambda>rec. projr (spec_line fmt hdr rec)) (spec_records S)"
    and "cache_ok fmt (cache_of st)"
    and "\<forall>rec\<in>set (spec_records (S @ stream_of chunks)). \<exists>l. spec_line fmt hdr rec = Inr l"
  shows "\<exists>st'. convert_chunks fmt hdr chunks st = Inr st'
           \<and> leftover st' = drop (length (S @ stream_of chunks) div 24 * 24) (S @ stream_of chunks)
           \<and> records_written st' = length (S @ stream_of chunks) div 24
           \<and> written st' = CSV_HEADER
                # map (\<lambda>rec. projr (spec_line fmt hdr rec)) (spec_records (S @ stream_of chunks))"
  using assms
proof (induction chunks arbitrary: S st)
  case Nil
  then show ?case by (simp add: stream_of_def)
next
  case (Cons c cs)
  show ?case
  proof (cases "c = []")
    case True
    with Cons.prems show ?thesis by (simp add: stream_of_def)
  next
    case False
    let ?S' = "S @ c"
    let ?k = "length S div 24" and ?k' = "length ?S' div 24"
    let ?L = "\<lambda>rec. projr (spec_line fmt hdr rec)"
    have str: "stream_of (c # cs) = c @ stream_of cs"
      using False by (simp add: stream_of_def)
    have T: "S @ stream_of (c # cs) = ?S' @ stream_of cs"
      by (simp add: str)
    have kle: "?k * 24 \<le> length S" by simp
    have kk': "?k \<le> ?k'" by (simp add: div_le_mono)
    have data: "leftover st @ c = drop (?k * 24) ?S'"
      using Cons.prems(1) kle by simp
    have len_data: "length (leftover st @ c) = length ?S' - ?k * 24"
      by (simp only: data length_drop)
    have cnt: "length (leftover st @ c) div 24 = ?k' - ?k"
      by (simp only: len_data div_mult_self_is_m)
    have sub: "set (spec_records ?S') \<subseteq> set (spec_records (S @ stream_of (c # cs)))"
      unfolding T by (subst spec_records_append [of ?S' "stream_of cs"]) simp
    have in_recs: "\<And>i. i < ?k' - ?k \<Longrightarrow>
        bytes_slice (leftover st @ c) (i * 24) (i * 24 + 24) \<in> set (spec_records ?S')"
    proof -
      fix i assume i: "i < ?k' - ?k"
      have eq: "bytes_slice (leftover st @ c) (i * 24) (i * 24 + 24)
            = bytes_slice ?S' ((?k + i) * 24) ((?k + i) * 24 + 24)"
        unfolding data by (rule data_slice_shift) simp
      have "?k + i \<in> {0..<?k'}" using i by simp
      then have "bytes_slice ?S' ((?k + i) * 24) ((?k + i) * 24 + 24) \<in> set (spec_records ?S')"
        unfolding spec_records_def set_map set_upt by (rule imageI)
      then show "bytes_slice (leftover st @ c) (i * 24) (i * 24 + 24) \<in> set (spec_records ?S')"
        by (simp only: eq)
    qed
    let ?st0 = "st\<lparr>leftover := drop ((?k' - ?k) * 24) (leftover st @ c)\<rparr>"
    have ok0: "cache_ok fmt (cache_of ?st0)" using Cons.prems(4) by simp
    have fm0: "\<forall>i\<in>set [0..<?k' - ?k].
        \<exists>l. spec_line fmt hdr (bytes_slice (leftover st @ c) (i * 24) (i * 24 + 24)) = Inr l"
    proof
      fix i assume "i \<in> set [0..<?k' - ?k]"
      then have "i < ?k' - ?k" by simp
      then have "bytes_slice (leftover st @ c) (i * 24) (i * 24 + 24)
                 \<in> set (spec_records (S @ stream_of (c # cs)))"
        using in_recs sub by blast
      then show "\<exists>l. spec_line fmt hdr (bytes_slice (leftover st @ c) (i * 24) (i * 24 + 24)) = Inr l"
        using Cons.prems(5) by blast
    qed
    from convert_records_ok [OF ok0 fm0] obtain st1 where
      run: "convert_records fmt hdr (leftover st @ c) [0..<?k' - ?k] ?st0 = Inr st1"
      and lo: "leftover st1 = leftover ?st0"
      and rw: "records_written st1 = records_written ?st0 + length [0..<?k' - ?k]"
      and wr: "written st1 = written ?st0
         @ map (\<lambda>i. ?L (bytes_slice (leftover st @ c) (i * 24) (i * 24 + 24))) [0..<?k' - ?k]"
      and ok1: "cache_ok fmt (cache_of st1)"
      by blast
    have lo1: "leftover st1 = drop (?k' * 24) ?S'"
    proof -
      have "leftover st1 = drop ((?k' - ?k) * 24) (drop (?k * 24) ?S')"
        using lo data by simp
      also have "\<dots> = drop ((?k' - ?k) * 24 + ?k * 24) ?S'"
        by (simp only: drop_drop)
      also have "(?k' - ?k) * 24 + ?k * 24 = ?k' * 24"
        using kk' by (simp add: algebra_simps)
      finally show ?thesis .
    qed
    have rw1: "records_written st1 = ?k'"
      using rw Cons.prems(2) kk' by simp
    have wr1: "written st1 = CSV_HEADER # map ?L (spec_records ?S')"
    proof -
      have "map (\<lambda>i. ?L (bytes_slice (leftover st @ c) (i * 24) (i * 24 + 24))) [0..<?k' - ?k]
            = map (\<lambda>i. ?L (bytes_slice ?S' ((?k + i) * 24) ((?k + i) * 24 + 24))) [0..<?k' - ?k]"
      proof (rule map_cong [OF refl])
        fix i
        have "?k * 24 \<le> length ?S'" by simp
        then show "?L (bytes_slice (leftover st @ c) (i * 24) (i * 24 + 24))
                 = ?L (bytes_slice ?S' ((?k + i) * 24) ((?k + i) * 24 + 24))"
          by (simp only: data data_slice_shift)
      qed
      also have "\<dots> = map (\<lambda>i. ?L (bytes_slice ?S' (i * 24) (i * 24 + 24))) [?k..<?k']"
        using upt_shift_map [OF kk', of "\<lambda>i. ?L (bytes_slice ?S' (i * 24) (i * 24 + 24))"]
        by simp
      finally show ?thesis
        using wr Cons.prems(3)
        by (simp add: spec_records_append [of S c] comp_def del: length_append)
    qed
    have fm1: "\<forall>rec\<in>set (spec_records (?S' @ stream_of cs)). \<exists>l. spec_line fmt hdr rec = Inr l"
      using Cons.prems(5) by (simp only: T)
    from Cons.IH [OF lo1 rw1 wr1 ok1 fm1] obtain st' where
      fin: "convert_chunks fmt hdr cs st1 = Inr st'"
        "leftover st' = drop (length (?S' @ stream_of cs) div 24 * 24) (?S' @ stream_of cs)"
        "records_written st' = length (?S' @ stream_of cs) div 24"
        "written st' = CSV_HEADER # map ?L (spec_records (?S' @ stream_of cs))"
      by blast
    have "convert_chunks fmt hdr (c # cs) st = convert_chunks fmt hdr cs st1"
      using False run cnt by (simp add: Let_def RECORD_SIZE_def)
    then show ?thesis
      using fin unfolding T by simp
  qed
qed

lemma convert_stream_value:
  assumes "\<forall>rec\<in>set (spec_records (stream_of chunks)). \<exists>l. spec_line fmt hdr rec = Inr l"
  shows "convert_stream fmt hdr chunks =
           Inr \<lparr>csv_lines = CSV_HEADER
                   # map (\<lambda>rec. projr (spec_line fmt hdr rec)) (spec_records (stream_of chunks)),
                res_records = length (stream_of chunks) div 24,
                warning = (if length (stream_of chunks) mod 24 = 0 then None
                           else Some (length (stream_of chunks) mod 24))\<rparr>"
proof -
  let ?T = "stream_of chunks"
  have "\<exists>st'. convert_chunks fmt hdr chunks initial_state = Inr st'
          \<and> leftover st' = drop (length ([] @ ?T) div 24 * 24) ([] @ ?T)
          \<and> records_written st' = length ([] @ ?T) div 24
          \<and> written st' = CSV_HEADER
               # map (\<lambda>rec. projr (spec_line fmt hdr rec)) (spec_records ([] @ ?T))"
    by (rule convert_chunks_ok)
      (use assms in \<open>simp_all add: initial_state_def spec_records_def cache_ok_empty\<close>)
  then obtain st' where st': "convert_chunks fmt hdr chunks initial_state = Inr st'"
    "leftover st' = drop (length ?T div 24 * 24) ?T"
    "records_written st' = length ?T div 24"
    "written st' = CSV_HEADER # map (\<lambda>rec. projr (spec_line fmt hdr rec)) (spec_records ?T)"
    by auto
  have len: "length (leftover st') = length ?T mod 24"
    by (simp add: st'(2) minus_div_mult_eq_mod)
  then have ne: "leftover st' \<noteq> [] \<longleftrightarrow> length ?T mod 24 \<noteq> 0"
    by (metis length_0_conv)
  show ?thesis
    by (simp add: convert_stream_def st'(1) st'(3) st'(4) finish_def len ne)
qed

lemma spec_line_no_clock:
  assumes "log_start_unix_us hdr = 0" and "rec \<in> set (spec_records S)"
  shows "\<exists>l. spec_line fmt hdr rec = Inr l"
proof -
  from assms(2) obtain i where "i < length S div 24" and "rec = bytes_slice S (i * 24) (i * 24 + 24)"
    by (auto simp: spec_records_def)
  then have "length rec = 24" by (simp add: bytes_slice_def) 
  then show ?thesis
    using assms(1) by (simp add: spec_line_def unpack_record_def RECORD_SIZE_def datetime_of_def)
qed

lemma stream_of_file_reads: "0 < n \<Longrightarrow> stream_of (file_reads n bs) = bs"
proof (induction n bs rule: file_reads.induct)
  case (1 n bs)
  show ?case
  proof (cases "bs = []")
    case True
    then show ?thesis by (simp add: stream_of_def file_reads.simps)
  next
    case False
    then have "take n bs \<noteq> []" using "1.prems" by simp
    moreover have "stream_of (file_reads n (drop n bs)) = drop n bs"
      using "1.IH" "1.prems" False by simp
    ultimately show ?thesis
      using False "1.prems" by (subst file_reads.simps) (simp add: stream_of_def)
  qed
qed

lemma convert_file_value:
  assumes "parse_header (take 64 file_bytes) = Inr hdr"
    and "\<forall>rec\<in>set (spec_records (drop 64 file_bytes)). \<exists>l. spec_line fmt hdr rec = Inr l"
  shows "convert_file fmt file_bytes =
           Inr \<lparr>csv_lines = CSV_HEADER
                   # map (\<lambda>rec. projr (spec_line fmt hdr rec)) (spec_records (drop 64 file_bytes)),
                res_records = length (drop 64 file_bytes) div 24,
                warning = (if length (drop 64 file_bytes) mod 24 = 0 then None
                           else Some (length (drop 64 file_bytes) mod 24))\<rparr>"
proof -
  have s: "stream_of (file_reads (24 * 1024) (drop 64 file_bytes)) = drop 64 file_bytes"
    by (rule stream_of_file_reads) simp
  have "convert_file fmt file_bytes
        = convert_stream fmt hdr (file_reads (24 * 1024) (drop 64 file_bytes))"
    using assms(1) by (simp add: convert_file_def HEADER_SIZE_def RECORD_SIZE_def)
  also have "\<dots> = Inr \<lparr>csv_lines = CSV_HEADER
                   # map (\<lambda>rec. projr (spec_line fmt hdr rec)) (spec_records (drop 64 file_bytes)),
                res_records = length (drop 64 file_bytes) div 24,
                warning = (if length (drop 64 file_bytes) mod 24 = 0 then None
                           else Some (length (drop 64 file_bytes) mod 24))\<rparr>"
    using convert_stream_value [of "file_reads (24 * 1024) (drop 64 file_bytes)" fmt hdr] assms(2)
    by (simp only: s)
  finally show ?thesis .
qed

text \<open>
  C3, as the code has it. Whatever the chunks, when the wall-clock time of every complete
  record can be formatted: one line per complete 24-byte record of the stream, in order;
  the count is the stream length divided by 24; a warning is printed exactly when the
  length is no multiple of 24, and it carries the remainder. Two sequences of chunks with
  the same bytes give the same result.
\<close>

theorem convert_stream_records:
  assumes "\<forall>rec\<in>set (spec_records (stream_of chunks)). \<exists>l. spec_line fmt hdr rec = Inr l"
  shows "convert_stream fmt hdr chunks =
           Inr \<lparr>csv_lines = CSV_HEADER
                   # map (\<lambda>rec. projr (spec_line fmt hdr rec)) (spec_records (stream_of chunks)),
                res_records = length (stream_of chunks) div 24,
                warning = (if length (stream_of chunks) mod 24 = 0 then None
                           else Some (length (stream_of chunks) mod 24))\<rparr>
         \<and> (\<forall>chunks'. stream_of chunks' = stream_of chunks \<longrightarrow>
                convert_stream fmt hdr chunks' = convert_stream fmt hdr chunks)"
proof (intro conjI allI impI)
  show "convert_stream fmt hdr chunks =
           Inr \<lparr>csv_lines = CSV_HEADER
                   # map (\<lambda>rec. projr (spec_line fmt hdr rec)) (spec_records (stream_of chunks)),
                res_records = length (stream_of chunks) div 24,
                warning = (if length (stream_of chunks) mod 24 = 0 then None
                           else Some (length (stream_of chunks) mod 24))\<rparr>"
    using assms by (rule convert_stream_value)
next
  fix chunks' assume same: "stream_of chunks' = stream_of chunks"
  then have "\<forall>rec\<in>set (spec_records (stream_of chunks')). \<exists>l. spec_line fmt hdr rec = Inr l"
    using assms by simp
  then show "convert_stream fmt hdr chunks' = convert_stream fmt hdr chunks"
    using assms same by (simp add: convert_stream_value)
qed

lemma example_stream:
  "stream_of example_chunks = example_record @ example_record @ example_record @ replicate 10 0xFF"
  by (simp add: stream_of_def example_chunks_def example_record_def)

lemma example_stream_records:
  "spec_records (stream_of example_chunks) = [example_record, example_record, example_record]"
  by (simp add: example_stream spec_records_def bytes_slice_def example_record_def
      upt_rec [of 0] upt_rec [of "Suc _"] del: upt_Suc)

lemma example_line:
  "spec_line example_fmt example_hdr example_record =
     Inr (''1700000000,500100,1D0,2,12,34,00,00,00,00,00,00'' @ [CHR 0x0A])"
  by (simp add: spec_line_def unpack_record_def RECORD_SIZE_def example_record_def
      bytes_slice_def datetime_of_def example_hdr_def example_fmt_def csv_line_def
      str_nat_def format_03X_def format_02X_def zero_pad_def digit_char_def to_base.simps)

theorem convert_stream_records_witness:
  "convert_stream example_fmt example_hdr example_chunks =
     Inr \<lparr>csv_lines =
            [CSV_HEADER,
             ''1700000000,500100,1D0,2,12,34,00,00,00,00,00,00'' @ [CHR 0x0A],
             ''1700000000,500100,1D0,2,12,34,00,00,00,00,00,00'' @ [CHR 0x0A],
             ''1700000000,500100,1D0,2,12,34,00,00,00,00,00,00'' @ [CHR 0x0A]],
          res_records = 3, warning = Some 10\<rparr>"
proof -
  have fm: "\<forall>rec\<in>set (spec_records (stream_of example_chunks)).
              \<exists>l. spec_line example_fmt example_hdr rec = Inr l"
    by (simp add: example_stream_records example_line)
  have len: "length (stream_of example_chunks) = 82"
    by (simp add: example_stream example_record_def)
  show ?thesis
    using convert_stream_records [OF fm]
    by (simp add: example_stream_records example_line len)
qed

text \<open>
  C3 as stated fails on a stream of one complete record: with a known wall-clock start
  and a device clock past the year 9999, formatting raises and no record is emitted.
\<close>

theorem convert_stream_counterexample:
  "convert_stream example_fmt example_hdr [far_record] = Inl ValueError
   \<and> length (stream_of [far_record]) = 1 * 24"
  by (simp add: convert_stream_def initial_state_def far_record_def RECORD_SIZE_def Let_def
      convert_record_def unpack_record_def bytes_slice_def format_datetime_def example_hdr_def
      example_fmt_def stream_of_def)

subsection \<open>Binary strings\<close>

lemma bits_val_append: "bits_val (xs @ ys) = bits_val xs * 2 ^ length ys + bits_val ys"
  by (induction xs) (simp_all add: power_add algebra_simps)

lemma bits_val_less: "bits_val s < 2 ^ length s"
  by (induction s) auto

lemma binary_simps [simp]:
  "binary []"
  "binary (c # cs) \<longleftrightarrow> (c = CHR ''0'' \<or> c = CHR ''1'') \<and> binary cs"
  "binary (xs @ ys) \<longleftrightarrow> binary xs \<and> binary ys"
  by (auto simp: binary_def)

lemma binary_take: "binary s \<Longrightarrow> binary (take n s)"
  by (metis append_take_drop_id binary_simps(3))

lemma binary_drop: "binary s \<Longrightarrow> binary (drop n s)"
  by (metis append_take_drop_id binary_simps(3))

lemma digit_in_2 [simp]:
  "digit_in 2 (CHR ''0'') = Some 0" "digit_in 2 (CHR ''1'') = Some 1"
  by (simp_all add: digit_in_def digit_val_def)

lemma parse_digits_binary:
  "binary s \<Longrightarrow> parse_digits 2 acc s = Some (acc * 2 ^ length s + bits_val s)"
proof (induction "2::nat" acc s rule: parse_digits.induct)
  case (1 acc)
  then show ?case by simp
next
  case (2 acc c)
  then show ?case by auto
next
  case (3 acc c d ds)
  from "3.prems" have c: "c = CHR ''0'' \<or> c = CHR ''1''" and rest: "binary (d # ds)"
    by simp_all
  from c have nu: "c \<noteq> CHR ''_''" by auto
  from c obtain v where v: "digit_in 2 c = Some v" "v = (if c = CHR ''1'' then 1 else 0)"
    by auto
  have "parse_digits 2 (acc * 2 + v) (d # ds)
        = Some ((acc * 2 + v) * 2 ^ length (d # ds) + bits_val (d # ds))"
    using "3.hyps"(2) [OF nu v(1) rest] .
  then show ?case
    using nu v by (simp add: algebra_simps)
qed


lemma int_strip_id:
  assumes "\<forall>c\<in>set s. \<not> is_c_space c"
  shows "int_strip s = s"
proof -
  have 1: "dropWhile is_c_space s = s"
    using assms by (cases s) auto
  have "\<forall>c\<in>set (rev s). \<not> is_c_space c" using assms by simp
  then have 2: "dropWhile is_c_space (rev s) = rev s"
    by (cases "rev s") auto
  show ?thesis by (simp add: int_strip_def 1 2)
qed

lemma not_space_binary: "c = CHR ''0'' \<or> c = CHR ''1'' \<Longrightarrow> \<not> is_c_space c"
  by (auto simp: is_c_space_def)

lemma int_strip_binary: "binary s \<Longrightarrow> int_strip s = s"
  by (rule int_strip_id) (auto simp: binary_def list_all_iff not_space_binary)

lemma py_int_binary:
  assumes "binary s" and "s \<noteq> []"
  shows "py_int 2 s = Some (int (bits_val s))"
proof -
  from assms obtain c cs where s: "s = c # cs" by (cases s) auto
  with assms(1) have c: "c = CHR ''0'' \<or> c = CHR ''1''" and cs: "binary cs" by simp_all
  have skip: "skip_prefix 2 s = s"
  proof (cases cs)
    case Nil
    then show ?thesis by (simp add: skip_prefix_def s)
  next
    case (Cons p r)
    with cs have "p = CHR ''0'' \<or> p = CHR ''1''" by simp
    then have "p \<notin> set (base_prefix 2)" by (auto simp: base_prefix_def)
    then show ?thesis by (simp add: skip_prefix_def s Cons)
  qed
  from c obtain v where v: "digit_in 2 c = Some v" "v = (if c = CHR ''1'' then 1 else 0)"
    by auto
  have "parse_body 2 s = Some (bits_val s)"
    using parse_digits_binary [OF cs, of v] v by (simp add: parse_body_def s)
  moreover have "hd s \<noteq> CHR ''-''" "hd s \<noteq> CHR ''+''"
    using c by (auto simp: s)
  ultimately show ?thesis
    using assms(2)
    by (simp add: py_int_def int_strip_binary [OF assms(1)] skip Let_def binary_base_def)
qed

subsection \<open>A byte in binary\<close>

lemma digit_char_01 [simp]: "digit_char 0 = CHR ''0''" "digit_char (Suc 0) = CHR ''1''"
  by (simp_all add: digit_char_def)

lemma to_base_2:
  "binary (to_base 2 n) \<and> bits_val (to_base 2 n) = n"
proof (induction "2::nat" n rule: to_base.induct)
  case (1 n)
  show ?case
  proof (cases "n < 2")
    case True
    then have "n = 0 \<or> n = Suc 0" by auto
    then show ?thesis by (subst (1 2) to_base.simps) auto
  next
    case False
    then have ih: "binary (to_base 2 (n div 2))" "bits_val (to_base 2 (n div 2)) = n div 2"
      using "1.hyps" by simp_all
    have r: "n mod 2 = 0 \<or> n mod 2 = Suc 0" by auto
    have unfold: "to_base 2 n = to_base 2 (n div 2) @ [digit_char (n mod 2)]"
      using False by (subst to_base.simps) simp
    have dv: "bits_val [digit_char (n mod 2)] = n mod 2"
      using r by auto
    have "bits_val (to_base 2 n)
          = bits_val (to_base 2 (n div 2)) * 2 ^ length [digit_char (n mod 2)]
            + bits_val [digit_char (n mod 2)]"
      by (simp only: unfold bits_val_append)
    also have "\<dots> = n" by (simp only: ih dv) simp
    finally have "bits_val (to_base 2 n) = n" .
    moreover have "binary (to_base 2 n)"
      using r ih by (auto simp: unfold)
    ultimately show ?thesis by simp
  qed
qed

lemma length_to_base_2: "0 < k \<Longrightarrow> n < 2 ^ k \<Longrightarrow> length (to_base 2 n) \<le> k"
proof (induction k arbitrary: n)
  case 0
  then show ?case by simp
next
  case (Suc k)
  show ?case
  proof (cases "n < 2")
    case True
    then show ?thesis by (subst to_base.simps) simp
  next
    case False
    with Suc.prems have "0 < k" by (cases k) auto
    moreover have "n div 2 < 2 ^ k" using Suc.prems by auto
    ultimately have "length (to_base 2 (n div 2)) \<le> k" by (rule Suc.IH)
    then show ?thesis using False by (subst to_base.simps) simp
  qed
qed

lemma bits_val_zeros: "bits_val (replicate m (CHR ''0'') @ s) = bits_val s"
  by (induction m) simp_all

lemma binary_zeros: "binary (replicate m (CHR ''0''))"
  by (induction m) simp_all

lemma format_08b_byte:
  assumes "0 \<le> b" and "b < 256"
  shows "binary (format_08b b)" and "length (format_08b b) = 8"
    and "int (bits_val (format_08b b)) = b"
proof -
  let ?d = "to_base 2 (nat b)"
  have fmt: "format_08b b = replicate (8 - length ?d) (CHR ''0'') @ ?d"
    using assms by (simp add: format_08b_def zero_pad_def)
  have "nat b < 2 ^ 8" using assms by simp
  then have len: "length ?d \<le> 8" by (intro length_to_base_2) simp_all
  show "binary (format_08b b)"
    by (simp add: fmt binary_zeros to_base_2)
  show "length (format_08b b) = 8"
    using len by (simp add: fmt)
  show "int (bits_val (format_08b b)) = b"
    using assms by (simp add: fmt bits_val_zeros to_base_2)
qed

subsection \<open>The bit string of a payload\<close>

lemma be_value_foldl:
  "foldl (\<lambda>acc b. acc * 256 + b) (a::int) bs
     = a * 256 ^ length bs + foldl (\<lambda>acc b. acc * 256 + b) 0 bs"
proof (induction bs arbitrary: a)
  case Nil
  show ?case by simp
next
  case (Cons b bs)
  let ?f = "\<lambda>acc b. acc * 256 + (b::int)"
  have 1: "foldl ?f (a * 256 + b) bs = (a * 256 + b) * 256 ^ length bs + foldl ?f 0 bs"
    by (rule Cons.IH)
  have 2: "foldl ?f b bs = b * 256 ^ length bs + foldl ?f 0 bs"
    by (rule Cons.IH)
  show ?case
    by (simp add: 1 2 ring_distribs)
qed

lemma be_value_Cons: "be_value (b # bs) = b * 256 ^ length bs + be_value bs"
  using be_value_foldl [of b bs] by (simp add: be_value_def)

lemma bit_string_bytes:
  assumes "\<forall>b\<in>set payload. 0 \<le> b \<and> b < 256"
  shows "binary (concat (map format_08b payload))"
    and "length (concat (map format_08b payload)) = 8 * length payload"
    and "int (bits_val (concat (map format_08b payload))) = be_value payload"
  using assms
proof (induction payload)
  case Nil
  {
    case 1 show ?case by simp
  next
    case 2 show ?case by simp
  next
    case 3 show ?case by (simp add: be_value_def)
  }
next
  case (Cons b bs)
  {
    case 1
    then show ?case using Cons.IH(1) by (simp add: format_08b_byte)
  next
    case 2
    then show ?case using Cons.IH(2) by (simp add: format_08b_byte)
  next
    case 3
    then have b: "0 \<le> b" "b < 256" and bs: "\<forall>b\<in>set bs. 0 \<le> b \<and> b < 256" by simp_all
    have "(256::int) ^ length bs = 2 ^ (8 * length bs)"
      by (simp add: power_mult)
    then show ?case
      using Cons.IH(2) [OF bs] Cons.IH(3) [OF bs] format_08b_byte(3) [OF b]
      by (simp add: bits_val_append be_value_Cons)
  }
qed

lemma bits_val_slice:
  assumes "off + len \<le> length s"
  shows "bits_val (take len (drop off s)) = (bits_val s div 2 ^ (length s - (off + len))) mod 2 ^ len"
proof -
  let ?a = "take off s" and ?m = "take len (drop off s)" and ?z = "drop (off + len) s"
  have s: "s = (?a @ ?m) @ ?z"
    by (simp add: take_add [symmetric])
  have lz: "length ?z = length s - (off + len)" by simp
  have lm: "length ?m = len" using assms by simp
  have "bits_val s = bits_val (?a @ ?m) * 2 ^ length ?z + bits_val ?z"
    by (subst s) (rule bits_val_append)
  moreover have "bits_val ?z < 2 ^ length ?z" by (rule bits_val_less)
  ultimately have "bits_val s div 2 ^ length ?z = bits_val (?a @ ?m)"
    by simp
  moreover have "bits_val (?a @ ?m) = bits_val ?a * 2 ^ len + bits_val ?m"
    using bits_val_append [of ?a ?m] by (simp only: lm)
  moreover have "bits_val ?m < 2 ^ len"
    using bits_val_less [of ?m] by (simp only: lm)
  ultimately show ?thesis
    by (simp add: lz)
qed

lemma py_slice_in_range:
  assumes "0 \<le> a" and "a \<le> b" and "b \<le> int (length xs)"
  shows "py_slice xs a b = take (nat b - nat a) (drop (nat a) xs)"
  using assms by (simp add: py_slice_def clamp_index_def Let_def min_def)

lemma extract_bits_unsigned_value:
  assumes bytes: "\<forall>b\<in>set payload. 0 \<le> b \<and> b < 256"
    and "0 \<le> bix" and "1 \<le> blen" and "bix + blen \<le> 8 * int (length payload)"
  shows "py_int 2 (py_slice (concat (map format_08b payload)) bix (bix + blen))
         = Some (bit_slice payload (nat bix) (nat blen))"
proof -
  let ?s = "concat (map format_08b payload)"
  note bs = bit_string_bytes [OF bytes]
  let ?v = "take (nat blen) (drop (nat bix) ?s)"
  have range: "nat bix + nat blen \<le> length ?s"
    using assms(2-4) by (simp add: bs(2)) 
  have slice: "py_slice ?s bix (bix + blen) = ?v"
    using assms(2-4) py_slice_in_range [of bix "bix + blen" ?s]
    by (simp add: bs(2) nat_add_distrib)
  have "binary ?v" by (intro binary_take binary_drop bs(1))
  moreover have "?v \<noteq> []"
    using range assms(3) by auto
  ultimately have "py_int 2 ?v = Some (int (bits_val ?v))"
    by (rule py_int_binary)
  moreover have "int (bits_val ?v) = bit_slice payload (nat bix) (nat blen)"
    using bits_val_slice [OF range] bs(3)
    by (simp add: bit_slice_def bs(2) zdiv_int zmod_int)
  ultimately show ?thesis by (simp add: slice)
qed

lemma extract_bits_value:
  assumes bytes: "\<forall>b\<in>set payload. 0 \<le> b \<and> b < 256"
    and "0 \<le> bix" and "1 \<le> blen" and "bix + blen \<le> 8 * int (length payload)"
  shows "extract_bits payload bix blen sg =
           Inr (Some (let u = bit_slice payload (nat bix) (nat blen)
                      in if sg \<and> u \<ge> 2 ^ (nat blen - 1) then u - 2 ^ nat blen else u))"
proof -
  have len: "length (concat (map format_08b payload)) = 8 * length payload"
    by (rule bit_string_bytes(2) [OF bytes])
  have n: "nat (blen - 1) = nat blen - 1" using assms(3) by simp
  show ?thesis
    using assms(2-4)
    by (simp add: extract_bits_def Let_def len extract_bits_unsigned_value [OF assms] n)
qed

lemma example_slice: "bit_slice [0x1A, 0x2B] 4 8 = 162"
  by (simp add: bit_slice_def be_value_def)

text \<open>
  C1. For a payload of bytes and a definition with \<open>0 \<le> bit_offset\<close>,
  \<open>1 \<le> bit_length\<close> and \<open>bit_offset + bit_length \<le> 8 * length payload\<close>: the
  unsigned extraction is the bit slice of the payload read as one big-endian integer;
  the signed extraction subtracts \<open>2 ^ bit_length\<close> from it when it is at least
  \<open>2 ^ (bit_length - 1)\<close>. The payload \<open>[0x1A, 0x2B]\<close> with offset 4 and length 8
  gives 162.
\<close>

theorem extract_bits_slice:
  assumes "\<forall>b\<in>set payload. 0 \<le> b \<and> b < 256"
    and "0 \<le> bix" and "1 \<le> blen" and "bix + blen \<le> 8 * int (length payload)"
  shows "extract_bits payload bix blen False = Inr (Some (bit_slice payload (nat bix) (nat blen)))
       \<and> extract_bits payload bix blen True =
           Inr (Some (if bit_slice payload (nat bix) (nat blen) \<ge> 2 ^ (nat blen - 1)
                      then bit_slice payload (nat bix) (nat blen) - 2 ^ nat blen
                      else bit_slice payload (nat bix) (nat blen)))
       \<and> extract_bits [0x1A, 0x2B] 4 8 False = Inr (Some 162)"
proof -
  have "extract_bits [0x1A, 0x2B] 4 8 False = Inr (Some (bit_slice [0x1A, 0x2B] (nat 4) (nat 8)))"
    using extract_bits_value [of "[0x1A, 0x2B]" 4 8 False] by simp
  then have "extract_bits [0x1A, 0x2B] 4 8 False = Inr (Some 162)"
    by (simp add: example_slice)
  then show ?thesis
    using extract_bits_value [OF assms, of False] extract_bits_value [OF assms, of True]
    by (simp add: Let_def)
qed

theorem extract_bits_slice_witness:
  "extract_bits [0x1A, 0x2B] 4 8 False = Inr (Some 162)
   \<and> extract_bits [0x1A, 0x2B] 4 8 True = Inr (Some (- 94))"
proof -
  have b: "\<forall>b\<in>set [0x1A, 0x2B :: int]. 0 \<le> b \<and> b < 256" by simp
  have r: "(0::int) \<le> 4" "(1::int) \<le> 8" "(4::int) + 8 \<le> 8 * int (length [0x1A, 0x2B :: int])"
    by simp_all
  show ?thesis
    using extract_bits_slice [OF b r] by (simp add: example_slice)
qed

subsection \<open>Rounding to binary64\<close>

lemma pow2_powi: "pow2 e = 2 powi e"
  by (simp add: pow2_def power_int_def inverse_eq_divide power_one_over)

lemma pow2_pos [simp]: "0 < pow2 e"
  by (simp add: pow2_powi)

lemma pow2_nonzero [simp]: "pow2 e \<noteq> 0"
  by (simp add: pow2_powi)

lemma pow2_nonneg [simp]: "0 \<le> pow2 e"
  by (simp add: pow2_powi)

lemma pow2_not_neg [simp]: "\<not> pow2 e < 0"
  by (simp add: not_less)

lemma pow2_add: "pow2 (a + b) = pow2 a * pow2 b"
  by (simp add: pow2_powi power_int_add)

lemma pow2_diff0: "pow2 (- k) = 1 / pow2 k"
proof -
  have "pow2 (- k) * pow2 k = 1" using pow2_add [of "- k" k] by (simp add: pow2_def)
  then show ?thesis by (simp add: field_simps)
qed

lemma pow2_nat: "pow2 (int n) = 2 ^ n"
  by (simp add: pow2_def)

lemma pow2_mono: "a \<le> b \<Longrightarrow> pow2 a \<le> pow2 b"
  by (simp add: pow2_powi power_int_increasing)

lemma pow2_strict_mono: "a < b \<Longrightarrow> pow2 a < pow2 b"
  by (simp add: pow2_powi power_int_strict_increasing)

lemma pow2_le_D: "pow2 a \<le> pow2 b \<Longrightarrow> a \<le> b"
  using pow2_strict_mono [of b a] by (cases "a \<le> b") auto

lemma pow2_less_D: "pow2 a < pow2 b \<Longrightarrow> a < b"
  using pow2_mono [of b a] by (cases "a < b") auto

lemma bit_length_nonneg: "0 \<le> bit_length n"
proof (induction n rule: bit_length.induct)
  case (1 n)
  show ?case
  proof (cases "n \<le> 0")
    case True
    then show ?thesis by (subst bit_length.simps) simp
  next
    case False
    then show ?thesis using "1.IH" by (subst bit_length.simps) simp
  qed
qed

lemma bit_length_pos: "0 < n \<Longrightarrow> 0 < bit_length n"
  using bit_length_nonneg [of "n div 2"] by (subst bit_length.simps) simp

lemma bit_length_bounds:
  "0 < n \<Longrightarrow> pow2 (bit_length n - 1) \<le> of_int n \<and> of_int n < pow2 (bit_length n)"
proof (induction n rule: bit_length.induct)
  case (1 n)
  have bl: "bit_length n = 1 + bit_length (n div 2)"
    using "1.prems" by (subst bit_length.simps) simp
  show ?case
  proof (cases "n div 2 \<le> 0")
    case True
    with "1.prems" have "n = 1" by presburger
    then show ?thesis
      by (simp add: bit_length.simps [of 1] bit_length.simps [of 0] pow2_def)
  next
    case False
    then have pos: "0 < n div 2" by simp
    define h where "h = n div 2"
    have ih: "pow2 (bit_length h - 1) \<le> of_int h" "of_int h < pow2 (bit_length h)"
      using "1.IH" "1.prems" pos by (simp_all add: h_def)
    have h1: "2 * h \<le> n" "n < 2 * h + 2" unfolding h_def by presburger+
    have p1: "pow2 1 = 2" by (simp add: pow2_def)
    have "pow2 (bit_length n - 1) = pow2 (1 + (bit_length h - 1))" by (simp add: bl h_def)
    also have "\<dots> = 2 * pow2 (bit_length h - 1)" by (simp only: pow2_add p1)
    also have "\<dots> \<le> 2 * of_int h" using ih(1) by simp
    also have "\<dots> = of_int (2 * h)" by simp
    also have "\<dots> \<le> of_int n" using h1(1) by (simp only: of_int_le_iff)
    finally have lo: "pow2 (bit_length n - 1) \<le> of_int n" .
    have "of_int h + 1 \<le> pow2 (bit_length h)"
    proof -
      have "0 \<le> bit_length h" using bit_length_pos [OF pos] by (simp add: h_def)
      then have "pow2 (bit_length h) = of_int (2 ^ nat (bit_length h))" by (simp add: pow2_def)
      with ih(2) have "h < 2 ^ nat (bit_length h)" by (simp only: of_int_less_iff)
      then have "h + 1 \<le> 2 ^ nat (bit_length h)" by simp
      then have "rat_of_int (h + 1) \<le> of_int (2 ^ nat (bit_length h))"
        by (simp only: of_int_le_iff)
      then show ?thesis using \<open>pow2 (bit_length h) = of_int (2 ^ nat (bit_length h))\<close> by simp
    qed
    then have "2 * rat_of_int h + 2 \<le> 2 * pow2 (bit_length h)" by simp
    moreover have "rat_of_int n < 2 * of_int h + 2"
    proof -
      have "rat_of_int n < of_int (2 * h + 2)" using h1(2) by (simp only: of_int_less_iff)
      then show ?thesis by simp
    qed
    moreover have "pow2 (bit_length n) = 2 * pow2 (bit_length h)"
      by (simp only: bl h_def [symmetric] pow2_add p1)
    ultimately have "of_int n < pow2 (bit_length n)" by simp
    with lo show ?thesis by simp
  qed
qed

lemma floor_log2_bounds:
  assumes "0 < q"
  shows "pow2 (floor_log2 q) \<le> q \<and> q < pow2 (floor_log2 q + 1)"
proof (cases "1 \<le> q")
  case True
  define n where "n = \<lfloor>q\<rfloor>"
  have npos: "0 < n" using True by (simp add: n_def)
  have nq: "of_int n \<le> q" "q < of_int n + 1"
    unfolding n_def by linarith+
  have fl: "floor_log2 q = bit_length n - 1"
    using True by (simp add: floor_log2_def n_def)
  from bit_length_bounds [OF npos]
  have b: "pow2 (bit_length n - 1) \<le> of_int n" "of_int n < pow2 (bit_length n)" by simp_all
  have lo: "pow2 (floor_log2 q) \<le> q" using b(1) nq(1) by (simp only: fl)
  have "0 \<le> bit_length n" using bit_length_pos [OF npos] by simp
  then have p: "pow2 (bit_length n) = of_int (2 ^ nat (bit_length n))" by (simp add: pow2_def)
  with b(2) have "n < 2 ^ nat (bit_length n)" by (simp only: of_int_less_iff)
  then have "n + 1 \<le> 2 ^ nat (bit_length n)" by simp
  then have "rat_of_int (n + 1) \<le> of_int (2 ^ nat (bit_length n))" by (simp only: of_int_le_iff)
  then have "of_int n + 1 \<le> pow2 (bit_length n)" using p by simp
  with nq(2) have "q < pow2 (bit_length n)" by (rule less_le_trans)
  then have "q < pow2 (floor_log2 q + 1)" by (simp add: fl)
  with lo show ?thesis by simp
next
  case False
  then have q1: "q < 1" by simp
  define c where "c = \<lceil>1 / q\<rceil>"
  have iq: "1 < 1 / q" using assms q1 by simp
  then have c2: "2 \<le> c" unfolding c_def by linarith
  have cq: "1 / q \<le> of_int c" "of_int c - 1 < 1 / q"
    unfolding c_def by linarith+
  define k where "k = bit_length (c - 1)"
  have cpos: "0 < c - 1" using c2 by simp
  have kpos: "0 < k" unfolding k_def using cpos by (rule bit_length_pos)
  from bit_length_bounds [OF cpos]
  have b: "pow2 (k - 1) \<le> of_int (c - 1)" "of_int (c - 1) < pow2 k"
    unfolding k_def by simp_all
  have fl: "floor_log2 q = - k"
    using False by (simp add: floor_log2_def c_def k_def)
  have p: "pow2 k = of_int (2 ^ nat k)" using kpos by (simp add: pow2_def)
  with b(2) have "c - 1 < 2 ^ nat k" by (simp only: of_int_less_iff)
  then have "c \<le> 2 ^ nat k" by simp
  then have "rat_of_int c \<le> of_int (2 ^ nat k)" by (simp only: of_int_le_iff)
  then have "of_int c \<le> pow2 k" using p by simp
  with cq(1) have "1 / q \<le> pow2 k" by (rule order_trans)
  then have "1 \<le> pow2 k * q" using assms by (simp add: field_simps)
  then have "1 / pow2 k \<le> q" by (simp add: field_simps)
  moreover have "pow2 (- k) = 1 / pow2 k" using pow2_diff0 [of k] by simp
  ultimately have lo: "pow2 (floor_log2 q) \<le> q" by (simp add: fl)
  have "pow2 (k - 1) \<le> of_int c - 1" using b(1) by simp
  then have "pow2 (k - 1) < 1 / q" using cq(2) by (rule le_less_trans)
  then have "pow2 (k - 1) * q < 1" using assms by (simp add: field_simps)
  then have "q < 1 / pow2 (k - 1)" by (simp add: field_simps)
  moreover have "pow2 (- (k - 1)) = 1 / pow2 (k - 1)" using pow2_diff0 [of "k - 1"] by simp
  ultimately have "q < pow2 (floor_log2 q + 1)" by (simp add: fl)
  with lo show ?thesis by simp
qed

lemma floor_log2_unique:
  assumes "0 < q" and "pow2 L \<le> q" and "q < pow2 (L + 1)"
  shows "floor_log2 q = L"
proof -
  from floor_log2_bounds [OF assms(1)]
  have b: "pow2 (floor_log2 q) \<le> q" "q < pow2 (floor_log2 q + 1)" by simp_all
  have "pow2 L < pow2 (floor_log2 q + 1)" using assms(2) b(2) by simp
  then have 1: "L < floor_log2 q + 1" by (rule pow2_less_D)
  have "pow2 (floor_log2 q) < pow2 (L + 1)" using assms(3) b(1) by simp
  then have 2: "floor_log2 q < L + 1" by (rule pow2_less_D)
  from 1 2 show ?thesis by simp
qed

lemma round_even_of_int [simp]: "round_even (of_int k) = k"
  by (simp add: round_even_def)

lemma round_even_le: "x \<le> of_int N \<Longrightarrow> round_even x \<le> N"
proof -
  assume a: "x \<le> of_int N"
  have f: "\<lfloor>x\<rfloor> \<le> N" using a by linarith
  show ?thesis
  proof (cases "x = of_int \<lfloor>x\<rfloor>")
    case True
    then show ?thesis using f by (simp add: round_even_def)
  next
    case False
    have "\<lfloor>x\<rfloor> \<noteq> N"
    proof
      assume "\<lfloor>x\<rfloor> = N"
      then have "of_int N \<le> x" by (metis of_int_floor_le)
      with a have "x = of_int N" by simp
      with \<open>\<lfloor>x\<rfloor> = N\<close> False show False by simp
    qed
    with f have "\<lfloor>x\<rfloor> < N" by simp
    then show ?thesis by (simp add: round_even_def Let_def)
  qed
qed

lemma round_even_ge: "of_int N \<le> x \<Longrightarrow> N \<le> round_even x"
proof -
  assume a: "of_int N \<le> x"
  have f: "N \<le> \<lfloor>x\<rfloor>" using a by (simp add: le_floor_iff)
  then show ?thesis by (simp add: round_even_def Let_def)
qed

lemma pow2_diff: "pow2 (a - b) = pow2 a / pow2 b"
proof -
  have "pow2 a = pow2 (a - b) * pow2 b" using pow2_add [of "a - b" b] by simp
  then show ?thesis by simp
qed

lemma pow2_of_int: "0 \<le> k \<Longrightarrow> pow2 k = of_int (2 ^ nat k)"
  by (simp add: pow2_def)

lemma round_mag_le:
  assumes "0 < a" and "a \<le> pow2 K" and "- 1074 \<le> K"
  shows "round_mag a \<le> pow2 K"
proof -
  define e where "e = max (floor_log2 a - 52) (- 1074)"
  from floor_log2_bounds [OF assms(1)] have "pow2 (floor_log2 a) \<le> a" by simp
  with assms(2) have "pow2 (floor_log2 a) \<le> pow2 K" by simp
  then have "floor_log2 a \<le> K" by (rule pow2_le_D)
  with assms(3) have eK: "e \<le> K" unfolding e_def by linarith
  have "a / pow2 e \<le> pow2 K / pow2 e"
    using assms(2) by (rule divide_right_mono) simp
  also have "\<dots> = pow2 (K - e)" by (simp add: pow2_diff)
  also have "\<dots> = of_int (2 ^ nat (K - e))" using eK by (simp add: pow2_of_int)
  finally have "round_even (a / pow2 e) \<le> 2 ^ nat (K - e)" by (rule round_even_le)
  then have "rat_of_int (round_even (a / pow2 e)) \<le> of_int (2 ^ nat (K - e))"
    by (simp only: of_int_le_iff)
  also have "\<dots> = pow2 (K - e)" using eK by (simp add: pow2_of_int)
  finally have "of_int (round_even (a / pow2 e)) * pow2 e \<le> pow2 (K - e) * pow2 e"
    by (simp add: mult_right_mono)
  also have "\<dots> = pow2 K" using pow2_add [of "K - e" e] by simp
  finally show ?thesis by (simp add: round_mag_def e_def Let_def)
qed

lemma round_mag_exact:
  assumes "a = of_int k * pow2 (max (floor_log2 a - 52) (- 1074))"
  shows "round_mag a = a"
proof -
  define e where "e = max (floor_log2 a - 52) (- 1074)"
  have a: "a = of_int k * pow2 e" using assms by (simp only: e_def)
  then have "a / pow2 e = of_int k" by simp
  then have "round_mag a = of_int k * pow2 e"
    unfolding round_mag_def e_def [symmetric] by (simp add: Let_def)
  then show ?thesis using a by simp
qed

lemma round_mag_idem:
  assumes "0 < a" and "0 < round_mag a"
  shows "round_mag (round_mag a) = round_mag a"
proof -
  define L where "L = floor_log2 a"
  define e where "e = max (L - 52) (- 1074)"
  define m where "m = round_even (a / pow2 e)"
  define v where "v = round_mag a"
  have v: "v = of_int m * pow2 e"
    by (simp add: v_def round_mag_def m_def e_def L_def Let_def)
  have vpos: "0 < v" using assms(2) by (simp add: v_def)
  then have "0 < rat_of_int m * pow2 e" using v by simp
  then have "0 < rat_of_int m" by (rule zero_less_mult_pos2) simp
  then have m1: "1 \<le> m" by simp
  define K where "K = max (L + 1) (- 1074)"
  have "a \<le> pow2 (L + 1)"
    using floor_log2_bounds [OF assms(1)] by (simp add: L_def)
  also have "\<dots> \<le> pow2 K" by (rule pow2_mono) (simp add: K_def)
  finally have "a \<le> pow2 K" .
  moreover have "- 1074 \<le> K" unfolding K_def by linarith
  ultimately have "v \<le> pow2 K"
    unfolding v_def by (rule round_mag_le [OF assms(1)])
  moreover have "K \<le> e + 53" unfolding K_def e_def by linarith
  ultimately have vhi: "v \<le> pow2 (e + 53)"
    using pow2_mono [of K "e + 53"] by simp
  define L' where "L' = floor_log2 v"
  define e' where "e' = max (L' - 52) (- 1074)"
  have b': "pow2 L' \<le> v" "v < pow2 (L' + 1)"
    using floor_log2_bounds [OF vpos] by (simp_all add: L'_def)
  have "pow2 L' \<le> pow2 (e + 53)" using b'(1) vhi by simp
  then have L'le: "L' \<le> e + 53" by (rule pow2_le_D)
  have e1074: "- 1074 \<le> e" unfolding e_def by linarith
  have "\<exists>k. v = of_int k * pow2 e'"
  proof (cases "e' \<le> e")
    case True
    have "pow2 e = pow2 (e - e') * pow2 e'" using pow2_add [of "e - e'" e'] by simp
    also have "pow2 (e - e') = of_int (2 ^ nat (e - e'))"
      using True by (simp add: pow2_of_int)
    finally have "v = of_int (m * 2 ^ nat (e - e')) * pow2 e'"
      using v by simp
    then show ?thesis by blast
  next
    case False
    then have "e' = e + 1" using L'le e1074 unfolding e'_def by linarith
    moreover from this False e1074 have "L' = e + 53" using L'le unfolding e'_def by linarith
    ultimately have "pow2 (e + 53) \<le> v" using b'(1) by simp
    with vhi have "v = pow2 (e + 53)" by simp
    also have "\<dots> = pow2 52 * pow2 e'"
      using pow2_add [of 52 e'] \<open>e' = e + 1\<close> by (simp add: add.commute)
    also have "pow2 52 = of_int (2 ^ 52)" by (simp add: pow2_def)
    finally show ?thesis by blast
  qed
  then obtain k where "v = of_int k * pow2 (max (floor_log2 v - 52) (- 1074))"
    by (auto simp: e'_def L'_def)
  then have "round_mag v = v" by (rule round_mag_exact)
  then show ?thesis by (simp add: v_def)
qed

lemma round_mag_nonneg: "0 < a \<Longrightarrow> 0 \<le> round_mag a"
proof -
  assume "0 < a"
  then have "0 \<le> a / pow2 (max (floor_log2 a - 52) (- 1074))" by simp
  then have "0 \<le> round_even (a / pow2 (max (floor_log2 a - 52) (- 1074)))"
    using round_even_ge [of 0] by simp
  then show ?thesis by (simp add: round_mag_def Let_def)
qed

lemma round64_idem:
  assumes "round64 q = Finite r"
  shows "round64 r = Finite r"
proof (cases "r = 0")
  case True
  then show ?thesis by (simp add: round64_def)
next
  case False
  then have q0: "q \<noteq> 0" using assms by (auto simp: round64_def)
  define v where "v = round_mag \<bar>q\<bar>"
  have lt: "\<not> pow2 1024 \<le> v" and v0: "v \<noteq> 0" and r: "r = (if 0 < q then v else - v)"
    using assms q0 False
    by (auto simp: round64_def v_def Let_def split: if_splits)
  have "0 \<le> v" unfolding v_def by (rule round_mag_nonneg) (use q0 in simp)
  with v0 have vpos: "0 < v" by simp
  have "round_mag v = v"
    unfolding v_def by (rule round_mag_idem) (use q0 vpos in \<open>simp_all add: v_def\<close>)
  moreover have "\<bar>r\<bar> = v" "r \<noteq> 0" "0 < r \<longleftrightarrow> 0 < q"
    using r vpos by (auto split: if_splits)
  ultimately show ?thesis
    using lt v0 r by (simp add: round64_def Let_def)
qed

lemma is_f64_round64 [simp]: "is_f64 (round64 q)"
  by (cases "round64 q") (simp_all add: is_f64_def round64_idem)



lemma round_mag_dyadic:
  assumes "0 < k" and "k < 2 ^ 53" and "- 1074 \<le> e"
  shows "round_mag (of_int k * pow2 e) = of_int k * pow2 e"
proof -
  define a where "a = rat_of_int k * pow2 e"
  have apos: "0 < a" using assms(1) by (simp add: a_def)
  define e' where "e' = max (floor_log2 a - 52) (- 1074)"
  have "rat_of_int k < of_int (2 ^ 53)" using assms(2) by (simp only: of_int_less_iff)
  also have "\<dots> = pow2 53" by (simp add: pow2_def)
  finally have "a < pow2 53 * pow2 e" by (simp add: a_def)
  then have "a < pow2 (53 + e)" by (simp only: pow2_add)
  moreover have "pow2 (floor_log2 a) \<le> a" using floor_log2_bounds [OF apos] by simp
  ultimately have "pow2 (floor_log2 a) < pow2 (53 + e)" by simp
  then have "floor_log2 a < 53 + e" by (rule pow2_less_D)
  with assms(3) have le: "e' \<le> e" unfolding e'_def by linarith
  have "pow2 e = pow2 (e - e') * pow2 e'" using pow2_add [of "e - e'" e'] by simp
  also have "pow2 (e - e') = of_int (2 ^ nat (e - e'))" using le by (simp add: pow2_of_int)
  finally have "a = of_int (k * 2 ^ nat (e - e')) * pow2 e'" by (simp add: a_def)
  then have "round_mag a = a" unfolding e'_def by (rule round_mag_exact)
  then show ?thesis by (simp add: a_def)
qed

lemma round64_dyadic:
  assumes "\<bar>k\<bar> < 2 ^ 53" and "- 1074 \<le> e" and "e \<le> 971"
  shows "round64 (of_int k * pow2 e) = Finite (of_int k * pow2 e)"
proof (cases "k = 0")
  case True
  then show ?thesis by (simp add: round64_def)
next
  case False
  define a where "a = rat_of_int \<bar>k\<bar> * pow2 e"
  have kpos: "0 < \<bar>k\<bar>" using False by simp
  have abs: "\<bar>rat_of_int k * pow2 e\<bar> = a" by (simp add: a_def abs_mult)
  have rm: "round_mag a = a"
    unfolding a_def using kpos assms(1,2) by (rule round_mag_dyadic)
  have "rat_of_int \<bar>k\<bar> < of_int (2 ^ 53)" using assms(1) by (simp only: of_int_less_iff)
  also have "\<dots> = pow2 53" by (simp add: pow2_def)
  finally have "a < pow2 53 * pow2 e" by (simp add: a_def)
  then have "a < pow2 (53 + e)" by (simp only: pow2_add)
  also have "\<dots> \<le> pow2 1024" by (rule pow2_mono) (use assms(3) in simp)
  finally have lt: "a < pow2 1024" .
  have apos: "0 < a" using kpos by (simp add: a_def)
  have sgn: "0 < rat_of_int k * pow2 e \<longleftrightarrow> 0 < k" by (simp add: zero_less_mult_iff)
  have neg: "\<not> 0 < k \<Longrightarrow> - a = rat_of_int k * pow2 e" using False by (simp add: a_def)
  have pos: "0 < k \<Longrightarrow> a = rat_of_int k * pow2 e" by (simp add: a_def)
  have nz: "rat_of_int k * pow2 e \<noteq> 0" using False by simp
  show ?thesis
    unfolding round64_def abs Let_def rm sgn
    using lt apos nz neg pos by (simp add: not_le)
qed

lemma round64_of_int:
  assumes "\<bar>n\<bar> < 2 ^ 53"
  shows "round64 (of_int n) = Finite (of_int n)"
  using round64_dyadic [OF assms, of 0] by (simp add: pow2_def)

lemma f64_of_int_small:
  assumes "\<bar>n\<bar> < 2 ^ 53"
  shows "f64_of_int n = Inr (Finite (of_int n))"
  by (simp add: f64_of_int_def round64_of_int [OF assms])

lemma round64_not_NaN [simp]: "round64 q \<noteq> NaN"
  by (simp add: round64_def Let_def)

lemma round_mag_pos:
  assumes "1 \<le> a"
  shows "0 < round_mag a"
proof -
  have apos: "0 < a" using assms by simp
  define e where "e = max (floor_log2 a - 52) (- 1074)"
  have "pow2 (floor_log2 a) \<le> a" using floor_log2_bounds [OF apos] by simp
  moreover have "pow2 (floor_log2 a - 52) \<le> pow2 (floor_log2 a)" by (rule pow2_mono) simp
  moreover have "pow2 (- 1074) \<le> pow2 0" by (rule pow2_mono) simp
  then have "pow2 (- 1074) \<le> a" using assms by (simp add: pow2_def)
  ultimately have "pow2 e \<le> a" by (simp add: e_def max_def)
  then have "1 \<le> a / pow2 e" by (simp add: le_divide_eq)
  then have "rat_of_int 1 \<le> a / pow2 e" by simp
  then have "1 \<le> round_even (a / pow2 e)" by (rule round_even_ge)
  then have "0 < rat_of_int (round_even (a / pow2 e))" by simp
  then show ?thesis by (simp add: round_mag_def e_def Let_def)
qed

lemma round64_of_int_not_NegZero: "round64 (of_int n) \<noteq> NegZero"
proof (cases "n = 0")
  case True
  then show ?thesis by (simp add: round64_def)
next
  case False
  then have "1 \<le> \<bar>n\<bar>" by simp
  then have "rat_of_int 1 \<le> of_int \<bar>n\<bar>" by (simp only: of_int_le_iff)
  then have "1 \<le> \<bar>rat_of_int n\<bar>" by simp
  then have "0 < round_mag \<bar>rat_of_int n\<bar>" by (rule round_mag_pos)
  then show ?thesis by (simp add: round64_def Let_def)
qed

lemma round64_of_int_finite:
  assumes "\<bar>n\<bar> \<le> 2 ^ 1023"
  shows "\<exists>r. round64 (of_int n) = Finite r"
proof (cases "n = 0")
  case True
  then show ?thesis by (simp add: round64_def)
next
  case False
  define a where "a = \<bar>rat_of_int n\<bar>"
  have apos: "0 < a" using False by (simp add: a_def)
  have "a = rat_of_int \<bar>n\<bar>" by (simp add: a_def)
  also have "\<dots> \<le> of_int (2 ^ 1023)" using assms by (simp only: of_int_le_iff)
  also have "\<dots> = pow2 1023" by (simp add: pow2_def)
  finally have "round_mag a \<le> pow2 1023" by (rule round_mag_le [OF apos]) simp
  also have "\<dots> < pow2 1024" by (rule pow2_strict_mono) simp
  finally have lt: "\<not> pow2 1024 \<le> round_mag a" by simp
  have "1 \<le> \<bar>n\<bar>" using False by simp
  then have "rat_of_int 1 \<le> of_int \<bar>n\<bar>" by (simp only: of_int_le_iff)
  then have a1: "1 \<le> a" by (simp add: a_def)
  have "0 < round_mag a" using a1 by (rule round_mag_pos)
  with lt show ?thesis using False by (simp add: round64_def a_def Let_def)
qed

lemma f64_of_int_ok:
  assumes "\<bar>n\<bar> \<le> 2 ^ 1023"
  shows "\<exists>r. f64_of_int n = Inr (Finite r) \<and> round64 r = Finite r"
proof -
  from round64_of_int_finite [OF assms] obtain r where r: "round64 (of_int n) = Finite r"
    by blast
  then have "f64_of_int n = Inr (Finite r)" by (simp add: f64_of_int_def)
  with round64_idem [OF r] show ?thesis by simp
qed

lemma f64_of_int_cases:
  "f64_of_int n = Inl OverflowError \<or> (\<exists>r. f64_of_int n = Inr (Finite r) \<and> round64 r = Finite r)"
proof (cases "round64 (of_int n)")
  case (Finite r)
  then show ?thesis using round64_idem [OF Finite] by (simp add: f64_of_int_def)
next
  case NegZero
  then show ?thesis using round64_of_int_not_NegZero [of n] by simp
qed (simp_all add: f64_of_int_def)

lemma f64_add_zero:
  assumes "is_f64 x" and "x \<noteq> NegZero"
  shows "f64_add x (Finite 0) = x"
  using assms by (cases x) (simp_all add: f64_add_def is_f64_def)

lemma f64_mul_one:
  assumes "is_f64 x"
  shows "f64_mul x (Finite 1) = x"
  using assms
  by (cases x) (simp_all add: f64_mul_def is_f64_def is_zero_def signed_inf_def signed_zero_def)

lemma f64_quot_one:
  assumes "is_f64 x"
  shows "f64_quot x (Finite 1) = x"
  using assms
  by (cases x) (simp_all add: f64_quot_def is_f64_def is_zero_def signed_inf_def signed_zero_def)

lemma is_f64_add [simp]: "is_f64 (f64_add x y)"
  by (cases x; cases y) (simp_all add: f64_add_def is_f64_def round64_idem split: f64.splits)

lemma is_f64_mul [simp]: "is_f64 (f64_mul x y)"
  by (simp add: f64_mul_def signed_inf_def signed_zero_def)
    (simp add: is_f64_def round64_def)



lemma round_even_near:
  assumes "\<bar>x - of_int m\<bar> < 1 / 2"
  shows "round_even x = m"
proof (cases "of_int m \<le> x")
  case True
  then have "\<lfloor>x\<rfloor> = m" using assms by (intro floor_unique) linarith+
  then show ?thesis using assms True by (simp add: round_even_def Let_def)
next
  case False
  then have "\<lfloor>x\<rfloor> = m - 1" using assms by (intro floor_unique) (simp, linarith+)
  then show ?thesis using assms False by (simp add: round_even_def Let_def)
qed

lemma round_even_tie:
  assumes "x = of_int m + 1 / 2"
  shows "round_even x = (if even m then m else m + 1)"
proof -
  have "\<lfloor>x\<rfloor> = m" using assms by (intro floor_unique) simp_all
  then show ?thesis using assms by (simp add: round_even_def Let_def)
qed

lemma round_even_ge_half:
  assumes "of_int N - 1 / 2 < x"
  shows "N \<le> round_even x"
proof (cases "of_int N \<le> x")
  case True
  then show ?thesis by (rule round_even_ge)
next
  case False
  then have "\<lfloor>x\<rfloor> = N - 1" using assms by (intro floor_unique) (simp, linarith+)
  then show ?thesis using assms by (simp add: round_even_def Let_def)
qed

lemma round64_cert:
  assumes "pow2 L \<le> \<bar>q\<bar>" and "\<bar>q\<bar> < pow2 (L + 1)"
    and "round_even (\<bar>q\<bar> / pow2 (max (L - 52) (- 1074))) = m"
    and "0 < m" and "rat_of_int m * pow2 (max (L - 52) (- 1074)) < pow2 1024"
  shows "round64 q =
           Finite (if 0 < q then of_int m * pow2 (max (L - 52) (- 1074))
                   else - (of_int m * pow2 (max (L - 52) (- 1074))))"
proof -
  have "0 < pow2 L" by simp
  then have apos: "0 < \<bar>q\<bar>" using assms(1) by (rule less_le_trans)
  then have q0: "q \<noteq> 0" by simp
  have L: "floor_log2 \<bar>q\<bar> = L" using apos assms(1,2) by (rule floor_log2_unique)
  have rm: "round_mag \<bar>q\<bar> = of_int m * pow2 (max (L - 52) (- 1074))"
    by (simp add: round_mag_def L assms(3) Let_def)
  have "0 < rat_of_int m * pow2 (max (L - 52) (- 1074))" using assms(4) by simp
  then show ?thesis
    using q0 assms(4,5) unfolding round64_def rm Let_def by (simp add: not_le)
qed

lemma round64_overflow:
  assumes "pow2 1024 - pow2 970 < \<bar>q\<bar>"
  shows "round64 q = (if 0 < q then PosInf else NegInf)"
proof -
  define a where "a = \<bar>q\<bar>"
  define L where "L = floor_log2 a"
  have "pow2 1023 \<le> pow2 1024 - pow2 970" by (simp add: pow2_def)
  with assms have a1023: "pow2 1023 < a" by (simp add: a_def)
  have "0 < pow2 1023" by simp
  then have apos: "0 < a" using a1023 by (rule less_trans)
  have b: "pow2 L \<le> a" "a < pow2 (L + 1)"
    using floor_log2_bounds [OF apos] by (simp_all add: L_def)
  have "pow2 1023 < pow2 (L + 1)" using a1023 b(2) by (rule less_trans)
  then have L1023: "1023 \<le> L" using pow2_less_D [of 1023 "L + 1"] by simp
  then have e: "max (L - 52) (- 1074) = L - 52" by simp
  have fl: "floor_log2 a = L" by (simp add: L_def)
  have "pow2 1024 \<le> round_mag a"
  proof (cases "L = 1023")
    case True
    have "rat_of_int (2 ^ 53) - 1 / 2 = (pow2 1024 - pow2 970) / pow2 971"
      by (simp add: pow2_def)
    also have "\<dots> < a / pow2 971" using assms by (simp add: a_def divide_strict_right_mono)
    finally have "2 ^ 53 \<le> round_even (a / pow2 971)" by (rule round_even_ge_half)
    then have r: "rat_of_int (2 ^ 53) \<le> of_int (round_even (a / pow2 971))"
      by (simp only: of_int_le_iff)
    have "pow2 1024 = rat_of_int (2 ^ 53) * pow2 971" by (simp add: pow2_def)
    also have "\<dots> \<le> of_int (round_even (a / pow2 971)) * pow2 971"
      using r by (rule mult_right_mono) simp
    also have "\<dots> = round_mag a" by (simp add: round_mag_def fl True Let_def)
    finally show ?thesis .
  next
    case False
    then have L1024: "1024 \<le> L" using L1023 by simp
    have "rat_of_int (2 ^ 52) = pow2 52" by (simp add: pow2_def)
    also have "\<dots> = pow2 L / pow2 (L - 52)" using pow2_diff [of L "L - 52"] by simp
    also have "\<dots> \<le> a / pow2 (L - 52)" using b(1) by (rule divide_right_mono) simp
    finally have "2 ^ 52 \<le> round_even (a / pow2 (L - 52))" by (rule round_even_ge)
    then have r: "rat_of_int (2 ^ 52) \<le> of_int (round_even (a / pow2 (L - 52)))"
      by (simp only: of_int_le_iff)
    have p52: "pow2 52 = rat_of_int (2 ^ 52)" by (simp add: pow2_def)
    have "pow2 1024 \<le> pow2 L" using L1024 by (rule pow2_mono)
    also have "pow2 L = pow2 (52 + (L - 52))" by simp
    also have "\<dots> = rat_of_int (2 ^ 52) * pow2 (L - 52)" by (simp only: pow2_add p52)
    also have "\<dots> \<le> of_int (round_even (a / pow2 (L - 52))) * pow2 (L - 52)"
      using r by (rule mult_right_mono) simp
    also have "\<dots> = round_mag a" using e by (simp add: round_mag_def fl Let_def)
    finally show ?thesis .
  qed
  moreover have "q \<noteq> 0" using apos by (simp add: a_def)
  ultimately show ?thesis by (simp add: round64_def a_def Let_def)
qed

lemma f64_of_int_overflow:
  assumes "2 ^ 1024 - 2 ^ 970 < \<bar>n\<bar>"
  shows "f64_of_int n = Inl OverflowError"
proof -
  have "rat_of_int (2 ^ 1024 - 2 ^ 970) < of_int \<bar>n\<bar>" using assms by (simp only: of_int_less_iff)
  moreover have "rat_of_int (2 ^ 1024 - 2 ^ 970) = pow2 1024 - pow2 970" by (simp add: pow2_def)
  ultimately have "pow2 1024 - pow2 970 < \<bar>rat_of_int n\<bar>" by simp
  from round64_overflow [OF this] show ?thesis by (simp add: f64_of_int_def)
qed

lemma round64_tenth: "round64 (1 / 10) = Finite (3602879701896397 / 36028797018963968)"
proof -
  have "round_even (\<bar>1 / 10\<bar> / pow2 (max (- 4 - 52) (- 1074))) = 7205759403792794"
    by (rule round_even_near) (simp add: pow2_def)
  from round64_cert [where L = "- 4" and q = "1 / 10", OF _ _ this]
  show ?thesis by (simp add: pow2_def)
qed

lemma float_of_2_53_plus_1: "f64_of_int (2 ^ 53 + 1) = Inr (Finite (2 ^ 53))"
proof -
  have "round_even (\<bar>rat_of_int (2 ^ 53 + 1)\<bar> / pow2 (max (53 - 52) (- 1074)))
          = (if even (2 ^ 52 :: int) then 2 ^ 52 else 2 ^ 52 + 1)"
    by (rule round_even_tie) (simp add: pow2_def)
  then have "round_even (\<bar>rat_of_int (2 ^ 53 + 1)\<bar> / pow2 (max (53 - 52) (- 1074))) = 2 ^ 52"
    by simp
  from round64_cert [where L = 53 and q = "rat_of_int (2 ^ 53 + 1)", OF _ _ this]
  have "round64 (rat_of_int (2 ^ 53 + 1)) = Finite (2 ^ 53)" by (simp add: pow2_def)
  then show ?thesis by (simp add: f64_of_int_def)
qed

subsection \<open>The transform of \<open>decode_signal\<close>\<close>

lemma f64_of_int_value:
  assumes "f64_of_int n = Inr v"
  shows "v = round64 (of_int n)" and "is_f64 v" and "v \<noteq> NegZero"
proof -
  show v: "v = round64 (of_int n)"
    using assms by (simp add: f64_of_int_def Let_def split: if_splits)
  show "is_f64 v" by (simp add: v)
  show "v \<noteq> NegZero" using round64_of_int_not_NegZero [of n] by (simp add: v)
qed

lemma to_float_spec:
  assumes "to_float x = Inr v"
  shows "spec_float x = v"
proof (cases x)
  case (PyInt n)
  then show ?thesis
    using assms f64_of_int_value(1) [of n v] by (simp add: to_float_def spec_float_def)
next
  case (PyFloat w)
  then show ?thesis using assms by (simp add: to_float_def spec_float_def)
qed

lemma to_float_small: "\<bar>n\<bar> < 2 ^ 53 \<Longrightarrow> to_float (PyInt n) = Inr (Finite (of_int n))"
  by (simp add: to_float_def f64_of_int_small)

lemma decode_signal_value:
  assumes ex: "extract_bits data (get_or (sd_bix sd) 0) (get_or (sd_len sd) 8)
                 (get_or (sd_sign sd) False) = Inr (Some raw)"
    and v: "f64_of_int raw = Inr v"
    and a: "to_float (get_or (sd_add sd) (PyInt 0)) = Inr a"
    and m: "to_float (get_or (sd_mul sd) (PyInt 1)) = Inr m"
    and d: "to_float (get_or (sd_div sd) (PyInt 1)) = Inr d"
    and nz: "\<not> is_zero d"
  shows "decode_signal data sd =
           Inr (Some \<lparr>ds_raw = raw, ds_value = f64_quot (f64_mul (f64_add v a) m) d,
                      ds_unit = get_or (sd_unit sd) ''unknown'',
                      ds_name = get_or (sd_name sd) ''Unknown''\<rparr>)"
proof -
  define v1 where "v1 = f64_add v a"
  define v2 where "v2 = f64_mul v1 m"
  have fv: "is_f64 v" "v \<noteq> NegZero" using f64_of_int_value [OF v] by simp_all
  have s1: "(case sd_add sd of
               None \<Rightarrow> Inr v
             | Some x \<Rightarrow> (case to_float x of Inl e \<Rightarrow> Inl e | Inr fa \<Rightarrow> Inr (f64_add v fa)))
            = Inr v1"
  proof (cases "sd_add sd")
    case None
    then have "a = Finite 0" using a to_float_small [of 0] by (simp add: get_or_def)
    then show ?thesis using None fv by (simp add: v1_def f64_add_zero)
  next
    case (Some x)
    then show ?thesis using a by (simp add: get_or_def v1_def)
  qed
  have s2: "(case sd_mul sd of
               None \<Rightarrow> Inr v1
             | Some x \<Rightarrow> (case to_float x of Inl e \<Rightarrow> Inl e | Inr fm \<Rightarrow> Inr (f64_mul v1 fm)))
            = Inr v2"
  proof (cases "sd_mul sd")
    case None
    then have "m = Finite 1" using m to_float_small [of 1] by (simp add: get_or_def)
    then show ?thesis using None by (simp add: v2_def v1_def f64_mul_one)
  next
    case (Some x)
    then show ?thesis using m by (simp add: get_or_def v2_def)
  qed
  have s3: "(case sd_div sd of
               None \<Rightarrow> Inr v2
             | Some x \<Rightarrow> (case to_float x of Inl e \<Rightarrow> Inl e | Inr fd \<Rightarrow> f64_div v2 fd))
            = Inr (f64_quot v2 d)"
  proof (cases "sd_div sd")
    case None
    then have "d = Finite 1" using d to_float_small [of 1] by (simp add: get_or_def)
    then show ?thesis using None by (simp add: v2_def f64_quot_one)
  next
    case (Some x)
    then show ?thesis using d nz by (simp add: get_or_def f64_div_def)
  qed
  show ?thesis
    unfolding decode_signal_def Let_def
    by (simp only: ex v s1 s2 s3 sum.case option.case) (simp add: v1_def v2_def)
qed

lemma decode_signal_zero_div:
  assumes ex: "extract_bits data (get_or (sd_bix sd) 0) (get_or (sd_len sd) 8)
                 (get_or (sd_sign sd) False) = Inr (Some raw)"
    and v: "f64_of_int raw = Inr v"
    and a: "to_float (get_or (sd_add sd) (PyInt 0)) = Inr a"
    and m: "to_float (get_or (sd_mul sd) (PyInt 1)) = Inr m"
    and d: "sd_div sd = Some x" "to_float x = Inr d" "is_zero d"
  shows "decode_signal data sd = Inl ZeroDivisionError"
proof -
  obtain v1 where s1: "(case sd_add sd of
               None \<Rightarrow> Inr v
             | Some x \<Rightarrow> (case to_float x of Inl e \<Rightarrow> Inl e | Inr fa \<Rightarrow> Inr (f64_add v fa)))
            = Inr v1"
    using a by (cases "sd_add sd") (simp_all add: get_or_def)
  obtain v2 where s2: "(case sd_mul sd of
               None \<Rightarrow> Inr v1
             | Some x \<Rightarrow> (case to_float x of Inl e \<Rightarrow> Inl e | Inr fm \<Rightarrow> Inr (f64_mul v1 fm)))
            = Inr v2"
    using m by (cases "sd_mul sd") (simp_all add: get_or_def)
  have s3: "(case sd_div sd of
               None \<Rightarrow> Inr v2
             | Some x \<Rightarrow> (case to_float x of Inl e \<Rightarrow> Inl e | Inr fd \<Rightarrow> f64_div v2 fd))
            = Inl ZeroDivisionError"
    using d by (simp add: f64_div_def)
  show ?thesis
    unfolding decode_signal_def Let_def
    by (simp only: ex v s1 s2 s3 sum.case option.case)
qed

lemma decode_signal_overflow:
  assumes "extract_bits data (get_or (sd_bix sd) 0) (get_or (sd_len sd) 8)
             (get_or (sd_sign sd) False) = Inr (Some raw)"
    and "f64_of_int raw = Inl e"
  shows "decode_signal data sd = Inl e"
  using assms by (simp add: decode_signal_def Let_def)

lemma be_value_replicate: "be_value (replicate n 255) = 256 ^ n - 1"
proof (induction n)
  case 0
  show ?case by (simp add: be_value_def)
next
  case (Suc n)
  have "be_value (replicate (Suc n) 255) = 255 * 256 ^ n + be_value (replicate n 255)"
    by (simp add: be_value_Cons)
  then show ?case using Suc by simp
qed

lemmas example_floats =
  round64_of_int [of 0, simplified] round64_of_int [of 1, simplified]
  round64_of_int [of 4, simplified] round64_of_int [of 10, simplified]
  round64_of_int [of 162, simplified] round64_of_int [of 150, simplified]
  round64_of_int [of "- 40", simplified] round64_of_int [of 122, simplified]
  round64_of_int [of 110, simplified] round64_of_int [of 183, simplified]
  round64_of_int [of "- 94", simplified]
  round64_dyadic [of 183 "- 2", simplified pow2_def, simplified]

lemma round64_steering:
  "round64 (- (47 / 5)) = Finite (- (5291729562160333 / 562949953421312))"
proof -
  have "round_even (\<bar>- (47 / 5)\<bar> / pow2 (max (3 - 52) (- 1074))) = 5291729562160333"
    by (rule round_even_near) (simp add: pow2_def)
  from round64_cert [where L = 3 and q = "- (47 / 5)", OF _ _ this]
  show ?thesis by (simp add: pow2_def)
qed

text \<open>
  C2, as the code has it. For a raw integer that was extracted and has a float, and a
  definition whose numbers have floats, with a divisor that is not zero: the result
  carries the raw integer, the definition's unit and name, and the value
  \<open>((raw + add) * mul) / div\<close> of binary64 arithmetic, with 0, 1 and 1 for the
  parameters that are unset. A raw value of 162 with \<open>add = -40\<close> gives 122 and the
  unit celsius.
\<close>

theorem decode_signal_transform:
  assumes "extract_bits data (get_or (sd_bix sd) 0) (get_or (sd_len sd) 8)
             (get_or (sd_sign sd) False) = Inr (Some raw)"
    and "f64_of_int raw = Inr v"
    and "to_float (get_or (sd_add sd) (PyInt 0)) = Inr a"
    and "to_float (get_or (sd_mul sd) (PyInt 1)) = Inr m"
    and "to_float (get_or (sd_div sd) (PyInt 1)) = Inr d"
    and "\<not> is_zero d"
  shows "decode_signal data sd =
           Inr (Some \<lparr>ds_raw = raw, ds_value = f64_quot (f64_mul (f64_add v a) m) d,
                      ds_unit = get_or (sd_unit sd) ''unknown'',
                      ds_name = get_or (sd_name sd) ''Unknown''\<rparr>)
       \<and> decode_signal [162] coolant_temp =
           Inr (Some \<lparr>ds_raw = 162, ds_value = Finite 122, ds_unit = ''celsius'',
                      ds_name = ''Coolant Temp''\<rparr>)"
proof -
  have ex: "extract_bits [162] (get_or (sd_bix coolant_temp) 0) (get_or (sd_len coolant_temp) 8)
              (get_or (sd_sign coolant_temp) False) = Inr (Some 162)"
    using extract_bits_value [of "[162]" 0 8 False]
    by (simp add: bit_slice_def be_value_def coolant_temp_def get_or_def)
  have v: "f64_of_int 162 = Inr (Finite 162)"
    using f64_of_int_small [of 162] by simp
  have a: "to_float (get_or (sd_add coolant_temp) (PyInt 0)) = Inr (Finite (- 40))"
    using to_float_small [of "- 40"] by (simp add: coolant_temp_def get_or_def)
  have m: "to_float (get_or (sd_mul coolant_temp) (PyInt 1)) = Inr (Finite 1)"
    using to_float_small [of 1] by (simp add: coolant_temp_def get_or_def)
  have d: "to_float (get_or (sd_div coolant_temp) (PyInt 1)) = Inr (Finite 1)"
    using to_float_small [of 1] by (simp add: coolant_temp_def get_or_def)
  have nz: "\<not> is_zero (Finite 1)" by (simp add: is_zero_def)
  have "f64_quot (f64_mul (f64_add (Finite 162) (Finite (- 40))) (Finite 1)) (Finite 1)
          = Finite 122"
    by (simp add: f64_add_def f64_mul_def f64_quot_def is_zero_def example_floats)
  with decode_signal_value [OF ex v a m d nz]
  have "decode_signal [162] coolant_temp =
           Inr (Some \<lparr>ds_raw = 162, ds_value = Finite 122, ds_unit = ''celsius'',
                      ds_name = ''Coolant Temp''\<rparr>)"
    by (simp add: coolant_temp_def get_or_def)
  with decode_signal_value [OF assms] show ?thesis by simp
qed

theorem decode_signal_transform_witness:
  "decode_signal [0x00, 162] scaled_temp =
     Inr (Some \<lparr>ds_raw = 162, ds_value = Finite (183 / 4), ds_unit = ''celsius'',
                ds_name = ''Scaled Temp''\<rparr>)"
proof -
  have ex: "extract_bits [0x00, 162] (get_or (sd_bix scaled_temp) 0)
              (get_or (sd_len scaled_temp) 8) (get_or (sd_sign scaled_temp) False)
            = Inr (Some 162)"
    using extract_bits_value [of "[0x00, 162]" 8 8 False]
    by (simp add: bit_slice_def be_value_def scaled_temp_def get_or_def)
  have v: "f64_of_int 162 = Inr (Finite 162)"
    using f64_of_int_small [of 162] by simp
  have a: "to_float (get_or (sd_add scaled_temp) (PyInt 0)) = Inr (Finite (- 40))"
    using to_float_small [of "- 40"] by (simp add: scaled_temp_def get_or_def)
  have m: "to_float (get_or (sd_mul scaled_temp) (PyInt 1)) = Inr (Finite (3 / 2))"
    by (simp add: scaled_temp_def get_or_def to_float_def)
  have d: "to_float (get_or (sd_div scaled_temp) (PyInt 1)) = Inr (Finite 4)"
    using to_float_small [of 4] by (simp add: scaled_temp_def get_or_def)
  have nz: "\<not> is_zero (Finite 4)" by (simp add: is_zero_def)
  have "f64_quot (f64_mul (f64_add (Finite 162) (Finite (- 40))) (Finite (3 / 2))) (Finite 4)
          = Finite (183 / 4)"
    by (simp add: f64_add_def f64_mul_def f64_quot_def is_zero_def example_floats)
  then show ?thesis
    using decode_signal_transform [OF ex v a m d nz]
    by (simp add: scaled_temp_def get_or_def)
qed

text \<open>
  With rounding: the built-in \<open>Steering Angle\<close>, signed and divided by 10, of the
  payload \<open>FF A2\<close> is the float nearest to \<open>-9.4\<close>.
\<close>

lemma decode_signal_steering:
  "decode_signal [0xFF, 0xA2] steering_angle =
     Inr (Some \<lparr>ds_raw = - 94, ds_value = Finite (- (5291729562160333 / 562949953421312)),
                ds_unit = ''degrees'', ds_name = ''Steering Angle''\<rparr>)"
proof -
  have ex: "extract_bits [0xFF, 0xA2] (get_or (sd_bix steering_angle) 0)
              (get_or (sd_len steering_angle) 8) (get_or (sd_sign steering_angle) False)
            = Inr (Some (- 94))"
    using extract_bits_value [of "[0xFF, 0xA2]" 0 16 True]
    by (simp add: bit_slice_def be_value_def steering_angle_def get_or_def)
  have v: "f64_of_int (- 94) = Inr (Finite (- 94))"
    using f64_of_int_small [of "- 94"] by simp
  have a: "to_float (get_or (sd_add steering_angle) (PyInt 0)) = Inr (Finite 0)"
    using to_float_small [of 0] by (simp add: steering_angle_def get_or_def)
  have m: "to_float (get_or (sd_mul steering_angle) (PyInt 1)) = Inr (Finite 1)"
    using to_float_small [of 1] by (simp add: steering_angle_def get_or_def)
  have d: "to_float (get_or (sd_div steering_angle) (PyInt 1)) = Inr (Finite 10)"
    using to_float_small [of 10] by (simp add: steering_angle_def get_or_def)
  have nz: "\<not> is_zero (Finite 10)" by (simp add: is_zero_def)
  have "f64_quot (f64_mul (f64_add (Finite (- 94)) (Finite 0)) (Finite 1)) (Finite 10)
          = Finite (- (5291729562160333 / 562949953421312))"
    by (simp add: f64_add_def f64_mul_def f64_quot_def is_zero_def example_floats
        round64_steering)
  then show ?thesis
    using decode_signal_value [OF ex v a m d nz]
    by (simp add: steering_angle_def get_or_def)
qed

text \<open>
  C2 as stated fails for a definition with \<open>div = 0\<close>: the raw value 162 is extracted,
  and the division raises. It fails for a raw value of 1024 bits, all set: the value is
  extracted, and \<open>float(raw)\<close> raises.
\<close>

theorem decode_signal_counterexample:
  "extract_bits [162] 0 8 False = Inr (Some 162)
   \<and> decode_signal [162] zero_div = Inl ZeroDivisionError
   \<and> extract_bits (replicate 128 255) 0 1024 False = Inr (Some (2 ^ 1024 - 1))
   \<and> decode_signal (replicate 128 255) wide_signal = Inl OverflowError"
proof -
  have ex: "extract_bits [162] 0 8 False = Inr (Some 162)"
    using extract_bits_value [of "[162]" 0 8 False] by (simp add: bit_slice_def be_value_def)
  have z: "decode_signal [162] zero_div = Inl ZeroDivisionError"
  proof (rule decode_signal_zero_div [where raw = 162 and x = "PyInt 0"])
    show "extract_bits [162] (get_or (sd_bix zero_div) 0) (get_or (sd_len zero_div) 8)
            (get_or (sd_sign zero_div) False) = Inr (Some 162)"
      by (simp add: zero_div_def get_or_def ex)
    show "f64_of_int 162 = Inr (Finite 162)" using f64_of_int_small [of 162] by simp
    show "to_float (get_or (sd_add zero_div) (PyInt 0)) = Inr (Finite 0)"
      using to_float_small [of 0] by (simp add: zero_div_def get_or_def)
    show "to_float (get_or (sd_mul zero_div) (PyInt 1)) = Inr (Finite 1)"
      using to_float_small [of 1] by (simp add: zero_div_def get_or_def)
    show "sd_div zero_div = Some (PyInt 0)" by (simp add: zero_div_def)
    show "to_float (PyInt 0) = Inr (Finite 0)" using to_float_small [of 0] by simp
    show "is_zero (Finite 0)" by (simp add: is_zero_def)
  qed
  have b: "\<forall>b\<in>set (replicate 128 (255::int)). 0 \<le> b \<and> b < 256" by simp
  have wide: "extract_bits (replicate 128 255) 0 1024 False = Inr (Some (2 ^ 1024 - 1))"
    using extract_bits_value [OF b, of 0 1024 False]
    by (simp add: bit_slice_def be_value_replicate)
  have "f64_of_int (2 ^ 1024 - 1) = Inl OverflowError"
    by (rule f64_of_int_overflow) simp
  moreover have "extract_bits (replicate 128 255) (get_or (sd_bix wide_signal) 0)
                   (get_or (sd_len wide_signal) 8) (get_or (sd_sign wide_signal) False)
                 = Inr (Some (2 ^ 1024 - 1))"
    using wide by (simp add: wide_signal_def get_or_def)
  ultimately have "decode_signal (replicate 128 255) wide_signal = Inl OverflowError"
    by (rule decode_signal_overflow [rotated])
  with ex z wide show ?thesis by simp
qed

subsection \<open>The signals of one frame\<close>

lemma extract_bits_miss:
  assumes "\<forall>b\<in>set payload. 0 \<le> b \<and> b < 256"
    and "8 * int (length payload) < bix + blen"
  shows "extract_bits payload bix blen sg = Inr None"
  using assms(2) by (simp add: extract_bits_def bit_string_bytes(2) [OF assms(1)])

lemma decode_signal_miss:
  assumes "\<forall>b\<in>set payload. 0 \<le> b \<and> b < 256"
    and "\<not> fits payload d"
  shows "decode_signal payload d = Inr None"
proof -
  have "8 * int (length payload) < get_or (sd_bix d) 0 + get_or (sd_len d) 8"
    using assms(2) by (simp add: fits_def)
  from extract_bits_miss [OF assms(1) this] show ?thesis
    by (simp add: decode_signal_def Let_def)
qed

lemma spec_raw_bound:
  assumes "1 \<le> get_or (sd_len d) 8" and "get_or (sd_len d) 8 \<le> 1023"
  shows "\<bar>spec_raw payload d\<bar> \<le> 2 ^ 1023"
proof -
  define l where "l = nat (get_or (sd_len d) 8)"
  define u where "u = bit_slice payload (nat (get_or (sd_bix d) 0)) l"
  have l: "1 \<le> l" "l \<le> 1023" using assms by (simp_all add: l_def)
  have u: "0 \<le> u" "u < 2 ^ l" by (simp_all add: u_def bit_slice_def)
  have "(2::int) ^ l \<le> 2 ^ 1023" using l(2) by (intro power_increasing) simp_all
  moreover have "\<bar>spec_raw payload d\<bar> \<le> 2 ^ l"
    using u by (simp add: spec_raw_def Let_def l_def [symmetric] u_def [symmetric])
  ultimately show ?thesis by (rule order_trans [rotated])
qed

lemma float_ok_to_float:
  assumes "float_ok p" and "\<bar>n\<bar> < 2 ^ 53"
  shows "to_float (get_or p (PyInt n)) = Inr (spec_float (get_or p (PyInt n)))"
proof (cases p)
  case None
  then show ?thesis
    using to_float_small [OF assms(2)] round64_of_int [OF assms(2)]
    by (simp add: get_or_def spec_float_def)
next
  case (Some x)
  then obtain v where "to_float x = Inr v"
    using assms(1) by (auto simp: float_ok_def split: sum.splits)
  then show ?thesis using Some to_float_spec [of x v] by (simp add: get_or_def)
qed

lemma decode_signal_fits:
  assumes bytes: "\<forall>b\<in>set payload. 0 \<le> b \<and> b < 256"
    and "fits payload d" and "well_formed d"
  shows "decode_signal payload d = Inr (Some (spec_decoded payload d))"
proof -
  have r: "0 \<le> get_or (sd_bix d) 0" "1 \<le> get_or (sd_len d) 8"
    "get_or (sd_bix d) 0 + get_or (sd_len d) 8 \<le> 8 * int (length payload)"
    and hi: "get_or (sd_len d) 8 \<le> 1023"
    and ok: "float_ok (sd_add d)" "float_ok (sd_mul d)" "float_ok (sd_div d)"
    using assms(2,3) by (simp_all add: fits_def well_formed_def)
  have ex: "extract_bits payload (get_or (sd_bix d) 0) (get_or (sd_len d) 8)
              (get_or (sd_sign d) False) = Inr (Some (spec_raw payload d))"
    using extract_bits_value [OF bytes r] by (simp add: spec_raw_def Let_def)
  obtain q where "round64 (of_int (spec_raw payload d)) = Finite q"
    using round64_of_int_finite [OF spec_raw_bound [OF r(2) hi]] by blast
  then have v: "f64_of_int (spec_raw payload d) = Inr (spec_float (PyInt (spec_raw payload d)))"
    by (simp add: f64_of_int_def spec_float_def)
  have a: "to_float (get_or (sd_add d) (PyInt 0)) = Inr (spec_float (get_or (sd_add d) (PyInt 0)))"
    by (rule float_ok_to_float [OF ok(1)]) simp
  have m: "to_float (get_or (sd_mul d) (PyInt 1)) = Inr (spec_float (get_or (sd_mul d) (PyInt 1)))"
    by (rule float_ok_to_float [OF ok(2)]) simp
  have dv: "to_float (get_or (sd_div d) (PyInt 1)) = Inr (spec_float (get_or (sd_div d) (PyInt 1)))"
    by (rule float_ok_to_float [OF ok(3)]) simp
  have nz: "\<not> is_zero (spec_float (get_or (sd_div d) (PyInt 1)))"
  proof (cases "sd_div d")
    case None
    then show ?thesis
      using round64_of_int [of 1] by (simp add: get_or_def spec_float_def is_zero_def)
  next
    case (Some x)
    then show ?thesis using assms(3) by (simp add: well_formed_def get_or_def)
  qed
  from decode_signal_value [OF ex v a m dv nz] show ?thesis
    by (simp add: spec_decoded_def spec_value_def)
qed

lemma decode_loop_value:
  assumes "\<forall>b\<in>set payload. 0 \<le> b \<and> b < 256"
    and "\<forall>d\<in>set defs. fits payload d \<longrightarrow> well_formed d"
  shows "decode_loop payload defs decoded =
           Inr (decoded @ map (spec_decoded payload) (filter (fits payload) defs))"
  using assms(2)
proof (induction defs arbitrary: decoded)
  case Nil
  show ?case by simp
next
  case (Cons d defs)
  show ?case
  proof (cases "fits payload d")
    case True
    then have "decode_signal payload d = Inr (Some (spec_decoded payload d))"
      using Cons.prems by (intro decode_signal_fits [OF assms(1)]) simp_all
    then show ?thesis
      using True Cons.IH [of "decoded @ [spec_decoded payload d]"] Cons.prems by simp
  next
    case False
    then have "decode_signal payload d = Inr None"
      by (rule decode_signal_miss [OF assms(1)])
    then show ?thesis
      using False Cons.IH [of decoded] Cons.prems by simp
  qed
qed

text \<open>
  C7, as the code has it. For a payload of bytes: a bit range that exceeds the payload
  yields no value and no error, in \<open>extract_bits\<close> and in \<open>decode_signal\<close>. When the
  definitions of the frame's id that fit the payload are well formed (at most 1023 bits,
  numbers within the range of \<open>float(...)\<close>, a divisor that is not zero), the decoded
  message holds one entry for each of them, in order, and none for the others.
\<close>

theorem decode_message_siblings:
  assumes "\<forall>b\<in>set payload. 0 \<le> b \<and> b < 256"
  shows "(8 * int (length payload) < bix + blen \<longrightarrow>
            extract_bits payload bix blen sg = Inr None)
       \<and> (\<not> fits payload d \<longrightarrow> decode_signal payload d = Inr None)
       \<and> (signal_definitions can_id = Some can_def
            \<and> (\<forall>d\<in>set (reg_signals can_def). fits payload d \<longrightarrow> well_formed d) \<longrightarrow>
          decode_message signal_definitions can_id payload =
            Inr (Some \<lparr>dm_name = reg_name can_def,
                       dm_signals = map (spec_decoded payload)
                                      (filter (fits payload) (reg_signals can_def))\<rparr>))"
proof (intro conjI impI)
  assume "8 * int (length payload) < bix + blen"
  then show "extract_bits payload bix blen sg = Inr None"
    by (rule extract_bits_miss [OF assms])
next
  assume "\<not> fits payload d"
  then show "decode_signal payload d = Inr None"
    by (rule decode_signal_miss [OF assms])
next
  assume "signal_definitions can_id = Some can_def
            \<and> (\<forall>d\<in>set (reg_signals can_def). fits payload d \<longrightarrow> well_formed d)"
  then show "decode_message signal_definitions can_id payload =
            Inr (Some \<lparr>dm_name = reg_name can_def,
                       dm_signals = map (spec_decoded payload)
                                      (filter (fits payload) (reg_signals can_def))\<rparr>)"
    by (simp add: decode_message_def decode_loop_value [OF assms])
qed

lemma example_raws:
  "spec_raw [162, 150] fl_temp = 162" "spec_raw [162, 150] fr_temp = 150"
  by (simp_all add: spec_raw_def bit_slice_def be_value_def fl_temp_def fr_temp_def
      coolant_temp_def get_or_def)

lemma example_values:
  "spec_value 162 fl_temp = Finite 122" "spec_value 150 fr_temp = Finite 110"
  by (simp_all add: spec_value_def spec_float_def fl_temp_def fr_temp_def coolant_temp_def
      get_or_def f64_add_def f64_mul_def f64_quot_def is_zero_def example_floats)

theorem decode_message_siblings_witness:
  "decode_message example_registry 0x4A7 [162, 150] =
     Inr (Some \<lparr>dm_name = Some ''TPMS Temperature'',
                dm_signals =
                  [\<lparr>ds_raw = 162, ds_value = Finite 122, ds_unit = ''celsius'',
                    ds_name = ''FL Temp''\<rparr>,
                   \<lparr>ds_raw = 150, ds_value = Finite 110, ds_unit = ''celsius'',
                    ds_name = ''FR Temp''\<rparr>]\<rparr>)
   \<and> extract_bits [162, 150] 16 8 False = Inr None
   \<and> decode_signal [162, 150] rl_temp = Inr None"
proof -
  have b: "\<forall>b\<in>set [162, 150 :: int]. 0 \<le> b \<and> b < 256" by simp
  have f: "fits [162, 150] fl_temp" "fits [162, 150] fr_temp" "\<not> fits [162, 150] rl_temp"
    by (simp_all add: fits_def fl_temp_def fr_temp_def rl_temp_def coolant_temp_def get_or_def)
  have t: "to_float (PyInt (- 40)) = Inr (Finite (- 40))"
    using to_float_small [of "- 40"] by simp
  have w: "well_formed fl_temp" "well_formed fr_temp"
    by (simp_all add: well_formed_def float_ok_def t fl_temp_def fr_temp_def coolant_temp_def
        get_or_def)
  have e: "example_registry 0x4A7 =
             Some \<lparr>reg_name = Some ''TPMS Temperature'',
                   reg_signals = [fl_temp, rl_temp, fr_temp], reg_source = ''built-in''\<rparr>"
    by (simp add: example_registry_def)
  have d: "spec_decoded [162, 150] fl_temp =
             \<lparr>ds_raw = 162, ds_value = Finite 122, ds_unit = ''celsius'', ds_name = ''FL Temp''\<rparr>"
    "spec_decoded [162, 150] fr_temp =
             \<lparr>ds_raw = 150, ds_value = Finite 110, ds_unit = ''celsius'', ds_name = ''FR Temp''\<rparr>"
    by (simp_all add: spec_decoded_def example_raws example_values)
      (simp_all add: fl_temp_def fr_temp_def coolant_temp_def get_or_def)
  show ?thesis
    using decode_message_siblings [OF b, of 16 8 False rl_temp example_registry "0x4A7"
        "\<lparr>reg_name = Some ''TPMS Temperature'',
          reg_signals = [fl_temp, rl_temp, fr_temp], reg_source = ''built-in''\<rparr>"]
    by (simp add: e f w d)
qed

text \<open>
  C7 as stated fails when a sibling divides by zero: the extraction succeeds for both
  definitions of id 0x2C1, and the frame has no decoded output at all.
\<close>

theorem decode_message_counterexample:
  "decode_message example_registry 0x2C1 [162] = Inl ZeroDivisionError
   \<and> decode_signal [162] coolant_temp =
       Inr (Some \<lparr>ds_raw = 162, ds_value = Finite 122, ds_unit = ''celsius'',
                  ds_name = ''Coolant Temp''\<rparr>)
   \<and> extract_bits [162] 0 8 False = Inr (Some 162)"
proof -
  have ex: "extract_bits [162] 0 8 False = Inr (Some 162)"
    using extract_bits_value [of "[162]" 0 8 False] by (simp add: bit_slice_def be_value_def)
  have v: "f64_of_int 162 = Inr (Finite 162)" using f64_of_int_small [of 162] by simp
  have t: "to_float (PyInt 0) = Inr (Finite 0)" "to_float (PyInt 1) = Inr (Finite 1)"
    "to_float (PyInt (- 40)) = Inr (Finite (- 40))"
    using to_float_small [of 0] to_float_small [of 1] to_float_small [of "- 40"] by simp_all
  have "f64_quot (f64_mul (f64_add (Finite 162) (Finite (- 40))) (Finite 1)) (Finite 1)
          = Finite 122"
    by (simp add: f64_add_def f64_mul_def f64_quot_def is_zero_def example_floats)
  then have c: "decode_signal [162] coolant_temp =
       Inr (Some \<lparr>ds_raw = 162, ds_value = Finite 122, ds_unit = ''celsius'',
                  ds_name = ''Coolant Temp''\<rparr>)"
    using decode_signal_value [of "[162]" coolant_temp 162 "Finite 162" "Finite (- 40)"
        "Finite 1" "Finite 1"]
    by (simp add: coolant_temp_def get_or_def ex v t is_zero_def)
  have z: "decode_signal [162] zero_div = Inl ZeroDivisionError"
    using decode_signal_zero_div [of "[162]" zero_div 162 "Finite 162" "Finite 0" "Finite 1"
        "PyInt 0" "Finite 0"]
    by (simp add: zero_div_def get_or_def ex v t is_zero_def)
  have "decode_message example_registry 0x2C1 [162] = Inl ZeroDivisionError"
    by (simp add: decode_message_def example_registry_def c z)
  then show ?thesis using c ex by simp
qed

subsection \<open>Merging the two tiers of definitions\<close>

lemma fold_merge_manual:
  assumes "distinct (map fst manual)"
  shows "fold merge_manual manual defs cid =
           (case map_of manual cid of
              None \<Rightarrow> defs cid
            | Some b \<Rightarrow> Some \<lparr>reg_name = Some (get_or (md_name b) ''Unknown''),
                              reg_signals = get_or (md_signals b) [],
                              reg_source = get_or (md_source b) ''built-in''\<rparr>)"
  using assms
proof (induction manual arbitrary: defs)
  case Nil
  show ?case by simp
next
  case (Cons item manual)
  obtain k b where item: "item = (k, b)" by (cases item)
  from Cons.prems have k: "k \<notin> fst ` set manual" and d: "distinct (map fst manual)"
    by (simp_all add: item)
  from k have none: "map_of manual k = None"
    by (simp add: map_of_eq_None_iff)
  have "fold merge_manual (item # manual) defs cid
        = fold merge_manual manual (merge_manual (k, b) defs) cid"
    by (simp add: item)
  also have "\<dots> = (case map_of manual cid of
              None \<Rightarrow> merge_manual (k, b) defs cid
            | Some b \<Rightarrow> Some \<lparr>reg_name = Some (get_or (md_name b) ''Unknown''),
                              reg_signals = get_or (md_signals b) [],
                              reg_source = get_or (md_source b) ''built-in''\<rparr>)"
    by (rule Cons.IH [OF d])
  also have "\<dots> = (case map_of (item # manual) cid of
              None \<Rightarrow> defs cid
            | Some b \<Rightarrow> Some \<lparr>reg_name = Some (get_or (md_name b) ''Unknown''),
                              reg_signals = get_or (md_signals b) [],
                              reg_source = get_or (md_source b) ''built-in''\<rparr>)"
    using none by (auto simp: item merge_manual_def split: option.splits)
  finally show ?case .
qed

lemma fold_merge_obdb:
  assumes "distinct (map fst obdb)"
  shows "fold merge_obdb obdb defs cid =
           (case map_of obdb cid of
              None \<Rightarrow> defs cid
            | Some e \<Rightarrow>
                (case defs cid of
                   Some existing \<Rightarrow>
                     Some \<lparr>reg_name = (if reg_name existing \<noteq> None \<and> reg_name existing \<noteq> Some []
                                        then reg_name existing else md_name e),
                           reg_signals = reg_signals existing @ get_or (md_signals e) [],
                           reg_source = reg_source existing @ ''+obdb''\<rparr>
                 | None \<Rightarrow>
                     Some \<lparr>reg_name = Some (get_or (md_name e) ''Unknown''),
                           reg_signals = get_or (md_signals e) [],
                           reg_source = get_or (md_source e) ''obdb''\<rparr>))"
  using assms
proof (induction obdb arbitrary: defs)
  case Nil
  show ?case by simp
next
  case (Cons item obdb)
  obtain k e where item: "item = (k, e)" by (cases item)
  from Cons.prems have k: "k \<notin> fst ` set obdb" and d: "distinct (map fst obdb)"
    by (simp_all add: item)
  from k have none: "map_of obdb k = None"
    by (simp add: map_of_eq_None_iff)
  have "fold merge_obdb (item # obdb) defs cid
        = fold merge_obdb obdb (merge_obdb (k, e) defs) cid"
    by (simp add: item)
  also have "\<dots> = (case map_of obdb cid of
              None \<Rightarrow> merge_obdb (k, e) defs cid
            | Some e' \<Rightarrow>
                (case merge_obdb (k, e) defs cid of
                   Some existing \<Rightarrow>
                     Some \<lparr>reg_name = (if reg_name existing \<noteq> None \<and> reg_name existing \<noteq> Some []
                                        then reg_name existing else md_name e'),
                           reg_signals = reg_signals existing @ get_or (md_signals e') [],
                           reg_source = reg_source existing @ ''+obdb''\<rparr>
                 | None \<Rightarrow>
                     Some \<lparr>reg_name = Some (get_or (md_name e') ''Unknown''),
                           reg_signals = get_or (md_signals e') [],
                           reg_source = get_or (md_source e') ''obdb''\<rparr>))"
    by (rule Cons.IH [OF d])
  also have "\<dots> = (case map_of (item # obdb) cid of
              None \<Rightarrow> defs cid
            | Some e \<Rightarrow>
                (case defs cid of
                   Some existing \<Rightarrow>
                     Some \<lparr>reg_name = (if reg_name existing \<noteq> None \<and> reg_name existing \<noteq> Some []
                                        then reg_name existing else md_name e),
                           reg_signals = reg_signals existing @ get_or (md_signals e) [],
                           reg_source = reg_source existing @ ''+obdb''\<rparr>
                 | None \<Rightarrow>
                     Some \<lparr>reg_name = Some (get_or (md_name e) ''Unknown''),
                           reg_signals = get_or (md_signals e) [],
                           reg_source = get_or (md_source e) ''obdb''\<rparr>))"
    using none by (auto simp: item merge_obdb_def split: option.splits)
  finally show ?case .
qed

lemma merge_signal_definitions_value:
  assumes "distinct (map fst manual)" and "distinct (map fst obdb)"
  shows "merge_signal_definitions manual obdb cid =
           (case (map_of manual cid, map_of obdb cid) of
              (None, None) \<Rightarrow> None
            | (Some b, None) \<Rightarrow>
                Some \<lparr>reg_name = Some (get_or (md_name b) ''Unknown''),
                      reg_signals = get_or (md_signals b) [],
                      reg_source = get_or (md_source b) ''built-in''\<rparr>
            | (None, Some e) \<Rightarrow>
                Some \<lparr>reg_name = Some (get_or (md_name e) ''Unknown''),
                      reg_signals = get_or (md_signals e) [],
                      reg_source = get_or (md_source e) ''obdb''\<rparr>
            | (Some b, Some e) \<Rightarrow>
                Some \<lparr>reg_name = (if get_or (md_name b) ''Unknown'' \<noteq> []
                                   then Some (get_or (md_name b) ''Unknown'') else md_name e),
                      reg_signals = get_or (md_signals b) [] @ get_or (md_signals e) [],
                      reg_source = get_or (md_source b) ''built-in'' @ ''+obdb''\<rparr>)"
  by (simp add: merge_signal_definitions_def fold_merge_obdb [OF assms(2)]
      fold_merge_manual [OF assms(1)] split: option.splits)

lemma merge_signal_definitions_dom:
  assumes "distinct (map fst manual)" and "distinct (map fst obdb)"
  shows "dom (merge_signal_definitions manual obdb) = fst ` set manual \<union> fst ` set obdb"
proof -
  have "\<And>cid. merge_signal_definitions manual obdb cid = None
               \<longleftrightarrow> map_of manual cid = None \<and> map_of obdb cid = None"
    by (simp add: merge_signal_definitions_value [OF assms] split: option.splits)
  then have "dom (merge_signal_definitions manual obdb) = dom (map_of manual) \<union> dom (map_of obdb)"
    by (auto simp: dom_def)
  then show ?thesis by (simp add: dom_map_of_conv_image_fst)
qed

text \<open>
  C4, as the code has it. Both tiers are dictionaries (distinct keys) whose entries carry
  their tier's provenance, \<open>built-in\<close> or \<open>obdb\<close>, or none. An id of both tiers gets
  the built-in signals followed by the external ones and the provenance
  \<open>built-in+obdb\<close>; an id of one tier gets that tier's signals and provenance; the ids
  of the result are those of the two tiers.
\<close>

theorem merge_signal_definitions_tiers:
  assumes "distinct (map fst manual)" and "distinct (map fst obdb)"
    and "\<forall>(k, b)\<in>set manual. md_source b = None \<or> md_source b = Some ''built-in''"
    and "\<forall>(k, e)\<in>set obdb. md_source e = None \<or> md_source e = Some ''obdb''"
  shows "(map_of manual cid = Some b \<and> map_of obdb cid = Some e \<longrightarrow>
            merge_signal_definitions manual obdb cid =
              Some \<lparr>reg_name = (if get_or (md_name b) ''Unknown'' \<noteq> []
                                 then Some (get_or (md_name b) ''Unknown'') else md_name e),
                    reg_signals = get_or (md_signals b) [] @ get_or (md_signals e) [],
                    reg_source = ''built-in+obdb''\<rparr>)
       \<and> (map_of manual cid = Some b \<and> map_of obdb cid = None \<longrightarrow>
            merge_signal_definitions manual obdb cid =
              Some \<lparr>reg_name = Some (get_or (md_name b) ''Unknown''),
                    reg_signals = get_or (md_signals b) [], reg_source = ''built-in''\<rparr>)
       \<and> (map_of manual cid = None \<and> map_of obdb cid = Some e \<longrightarrow>
            merge_signal_definitions manual obdb cid =
              Some \<lparr>reg_name = Some (get_or (md_name e) ''Unknown''),
                    reg_signals = get_or (md_signals e) [], reg_source = ''obdb''\<rparr>)
       \<and> dom (merge_signal_definitions manual obdb) = fst ` set manual \<union> fst ` set obdb"
proof -
  have sb: "map_of manual cid = Some b \<Longrightarrow> get_or (md_source b) ''built-in'' = ''built-in''"
    using assms(3) by (auto dest!: map_of_SomeD simp: get_or_def split: option.splits)
  have se: "map_of obdb cid = Some e \<Longrightarrow> get_or (md_source e) ''obdb'' = ''obdb''"
    using assms(4) by (auto dest!: map_of_SomeD simp: get_or_def split: option.splits)
  show ?thesis
    using sb se
    by (simp add: merge_signal_definitions_value [OF assms(1,2)]
        merge_signal_definitions_dom [OF assms(1,2)])
qed


lemma example_tiers:
  "distinct (map fst manual_example)" "distinct (map fst obdb_example)"
  "\<forall>(k, b)\<in>set manual_example. md_source b = None \<or> md_source b = Some ''built-in''"
  "\<forall>(k, e)\<in>set obdb_example. md_source e = None \<or> md_source e = Some ''obdb''"
  by (simp_all add: manual_example_def obdb_example_def)

theorem merge_signal_definitions_tiers_witness:
  "merge_signal_definitions manual_example obdb_example 0x4A7 =
     Some \<lparr>reg_name = Some ''TPMS Temperature'', reg_signals = [fl_temp, fr_temp, zero_div],
           reg_source = ''built-in+obdb''\<rparr>
   \<and> merge_signal_definitions manual_example obdb_example 0x7E8 =
     Some \<lparr>reg_name = Some ''OBDb Signal'', reg_signals = [zero_div], reg_source = ''obdb''\<rparr>
   \<and> dom (merge_signal_definitions manual_example obdb_example) = {0x4A7, 0x7E8}"
proof -
  have 1: "merge_signal_definitions manual_example obdb_example 0x4A7 =
     Some \<lparr>reg_name = Some ''TPMS Temperature'', reg_signals = [fl_temp, fr_temp, zero_div],
           reg_source = ''built-in+obdb''\<rparr>"
    using merge_signal_definitions_tiers [OF example_tiers, of "0x4A7"
        "\<lparr>md_name = Some ''TPMS Temperature'', md_signals = Some [fl_temp, fr_temp],
          md_source = Some ''built-in''\<rparr>"
        "\<lparr>md_name = Some ''OBDb Signal'', md_signals = Some [zero_div],
          md_source = Some ''obdb''\<rparr>"]
    by (simp add: manual_example_def obdb_example_def get_or_def)
  have 2: "merge_signal_definitions manual_example obdb_example 0x7E8 =
     Some \<lparr>reg_name = Some ''OBDb Signal'', reg_signals = [zero_div], reg_source = ''obdb''\<rparr>"
    using merge_signal_definitions_tiers [OF example_tiers, of "0x7E8"
        "\<lparr>md_name = Some ''TPMS Temperature'', md_signals = Some [fl_temp, fr_temp],
          md_source = Some ''built-in''\<rparr>"
        "\<lparr>md_name = Some ''OBDb Signal'', md_signals = Some [zero_div],
          md_source = Some ''obdb''\<rparr>"]
    by (simp add: manual_example_def obdb_example_def get_or_def)
  have 3: "dom (merge_signal_definitions manual_example obdb_example) = {0x4A7, 0x7E8}"
    using merge_signal_definitions_tiers [OF example_tiers, of "0x4A7"
        "\<lparr>md_name = Some ''TPMS Temperature'', md_signals = Some [fl_temp, fr_temp],
          md_source = Some ''built-in''\<rparr>"
        "\<lparr>md_name = Some ''OBDb Signal'', md_signals = Some [zero_div],
          md_source = Some ''obdb''\<rparr>"]
    by (auto simp: manual_example_def obdb_example_def)
  show ?thesis using 1 2 3 by blast
qed

text \<open>
  C4 as stated fails on the specification's own example: the provenance of the merged id
  is \<open>built-in+obdb\<close>, and that of the id found only in the external source is \<open>obdb\<close>.
\<close>

theorem merge_signal_definitions_counterexample:
  "map_option reg_source (merge_signal_definitions manual_example obdb_example 0x4A7)
     = Some ''built-in+obdb''
   \<and> map_option reg_source (merge_signal_definitions manual_example obdb_example 0x4A7)
     \<noteq> Some ''built-in+external''
   \<and> map_option reg_source (merge_signal_definitions manual_example obdb_example 0x7E8)
     = Some ''obdb''
   \<and> map_option reg_source (merge_signal_definitions manual_example obdb_example 0x7E8)
     \<noteq> Some ''external''"
  by (simp add: merge_signal_definitions_value [OF example_tiers(1,2)])
    (simp add: manual_example_def obdb_example_def get_or_def)

subsection \<open>Rows of \<open>convert_csv_to_bin\<close>\<close>

lemma length_le_encode [simp]: "length (le_encode n v) = n"
  by (induction n arbitrary: v) simp_all










lemmas py_int_eval = py_int_def int_strip_def is_c_space_def py_strip_def is_space_def
  binary_base_def digit_count_def MAX_STR_DIGITS_def skip_prefix_def base_prefix_def
  parse_body_def digit_in_def digit_val_def Let_def

lemma example_fields:
  "int_get good_row ''timestamp_us'' = Some 500100"
  "py_int 16 (str_get good_row ''can_id'' ''0'') = Some 0x1D0"
  "int_get good_row ''dlc'' = Some 2"
  "int_get bad_row ''timestamp_us'' = None"
  by (simp_all add: good_row_def bad_row_def int_get_def str_get_def py_int_eval)






subsection \<open>Numbers made of plain digits\<close>






lemma is_hex_not_space: "is_hex c \<Longrightarrow> \<not> is_space c"
  by (auto simp: is_hex_def is_space_def Let_def)

text \<open>
  The white space of \<open>int\<close> is not that of \<open>strip\<close>: the separators \<open>0x1C\<close> to
  \<open>0x1F\<close> make a text unparsable. So does a run of more than 4300 decimal digits.
\<close>

lemma int_white_space:
  "py_int 10 [CHR 0x1F, CHR ''5''] = None"
  "py_int 16 (''1D0'' @ [CHR 0x1C]) = None"
  "py_int 10 (''2'' @ [CHR 0x1F]) = None"
  "py_int 10 [CHR 0x09, CHR ''5'', CHR 0x0A] = Some 5"
  "py_strip [CHR 0x1F, CHR ''5''] = ''5''"
  by (simp_all add: py_int_eval)

lemma digit_not_c_space: "is_digit c \<Longrightarrow> \<not> is_c_space c"
  by (auto simp: is_digit_def is_c_space_def)


lemma digit_not_special:
  assumes "is_digit c"
  shows "c \<noteq> CHR ''-''" and "c \<noteq> CHR ''+''" and "c \<noteq> CHR ''_''"
  using assms by (auto simp: is_digit_def)

lemma py_int_too_long:
  assumes "\<forall>c\<in>set s. is_digit c" and "4300 < length s"
  shows "py_int 10 s = None"
proof -
  have strip: "int_strip s = s"
    using assms(1) by (intro int_strip_id) (blast dest: digit_not_c_space)
  from assms(2) obtain c cs where s: "s = c # cs" by (cases s) auto
  have hd: "hd s \<noteq> CHR ''-''" "hd s \<noteq> CHR ''+''"
    using assms(1) digit_not_special(1,2) [of c] by (simp_all add: s)
  have skip: "skip_prefix 10 s = s"
    by (simp add: skip_prefix_def base_prefix_def split: list.splits)
  have "filter (\<lambda>c. c \<noteq> CHR ''_'') s = s"
    using assms(1) digit_not_special(3) by (intro filter_True) blast
  then have "digit_count s = length s" by (simp add: digit_count_def)
  then show ?thesis
    using assms(2) hd
    by (simp add: py_int_def strip skip Let_def binary_base_def MAX_STR_DIGITS_def)
qed

text \<open>
  Rows that \<open>convert\<close> skips for such a field: a timestamp or an id with a
  separator, and a dlc of 4301 digits.
\<close>

lemma convert_row_separators:
  "convert_row (good_row(''timestamp_us'' \<mapsto> Str [CHR 0x1F, CHR ''5''])) = Inr None"
  "convert_row (good_row(''can_id'' \<mapsto> Str (''1D0'' @ [CHR 0x1C]))) = Inr None"
  by (simp_all add: convert_row_def good_row_def int_get_def str_get_def py_int_eval)

lemma convert_row_long_number:
  "convert_row (good_row(''dlc'' \<mapsto> Str (replicate 4301 CHR ''1''))) = Inr None"
proof -
  have "py_int 10 (replicate 4301 CHR ''1'') = None"
    by (rule py_int_too_long) (simp_all add: is_digit_def)
  then show ?thesis
    by (simp add: convert_row_def int_get_def example_fields(1,2)
        [unfolded int_get_def str_get_def good_row_def, simplified]
        good_row_def str_get_def)
qed

subsection \<open>The payload of a parsed frame\<close>























end
